theory Spec2Isabelle
  imports Main
begin

section \<open>Strings\<close>

text \<open>
  A Python \<open>str\<close> is modelled as a \<open>string\<close>; a \<open>char\<close> stands for the code point of the
  same number, so the model covers text whose code points are below 256.
\<close>

definition newline :: char where
  "newline = CHR 0x0A"

definition space :: char where
  "space = CHR 0x20"

text \<open>
  \<open>str.isspace\<close> on one character: the code points below 256 that Python counts as
  whitespace (tab, line feed, vertical tab, form feed, carriage return, the four
  separators 0x1C..0x1F, space, next line, no-break space).
\<close>

definition whitespace_chars :: "char list" where
  "whitespace_chars =
     [CHR 0x09, CHR 0x0A, CHR 0x0B, CHR 0x0C, CHR 0x0D,
      CHR 0x1C, CHR 0x1D, CHR 0x1E, CHR 0x1F, CHR 0x20, CHR 0x85, CHR 0xA0]"

definition char_isspace :: "char \<Rightarrow> bool" where
  "char_isspace c = (c \<in> set whitespace_chars)"

text \<open>\<open>str.isspace\<close> on a string: at least one character, and all of them whitespace.\<close>

definition isspace :: "string \<Rightarrow> bool" where
  "isspace s = (s \<noteq> [] \<and> list_all char_isspace s)"

text \<open>\<open>str.rstrip()\<close> with no argument removes the trailing whitespace.\<close>

definition rstrip :: "string \<Rightarrow> string" where
  "rstrip s = rev (dropWhile char_isspace (rev s))"

text \<open>\<open>str.endswith\<close> with a tuple of one-character suffixes.\<close>

definition endswith :: "string \<Rightarrow> char list \<Rightarrow> bool" where
  "endswith s suffixes = (s \<noteq> [] \<and> last s \<in> set suffixes)"

section \<open>spacecount\<close>

text \<open>
  The loop of \<open>spacecount\<close>: \<open>result\<close> is the counter, the list is what is left of
  the string, and the \<open>break\<close> returns the counter as it stands.
\<close>

fun spacecount_loop :: "int \<Rightarrow> string \<Rightarrow> int" where
  "spacecount_loop result [] = result"
| "spacecount_loop result (c # cs) =
     (if c = newline \<or> \<not> char_isspace c then result
      else spacecount_loop (result + 1) cs)"

definition spacecount :: "string \<Rightarrow> int" where
  "spacecount string = spacecount_loop 0 string"

text \<open>The characters that \<open>spacecount\<close> counts: whitespace other than the newline.\<close>

definition indent_char :: "char \<Rightarrow> bool" where
  "indent_char c = (char_isspace c \<and> c \<noteq> newline)"

section \<open>The toolkit's text buffer\<close>

text \<open>
  \<open>EditorText\<close> inherits from the toolkit's text widget, which is not part of the
  repository. Its buffer is modelled as the list of its lines (without their
  newlines; the buffer always ends with a newline, so an empty buffer is one empty
  line), and an index as a pair of a line number, counted from 1, and a column,
  counted from 0. The index \<open>end\<close> is the start of the line after the last one.
  Out-of-range indices clamp, as the toolkit does.
\<close>

type_synonym pos = "nat \<times> nat"

record widget =
  lines :: "string list"
  insert_mark :: pos
  sel_ranges :: "(pos \<times> pos) list"
  modified :: bool
  modified_bound :: bool
  undo_stack :: "(string list \<times> pos) list"
  redo_stack :: "(string list \<times> pos) list"
  settings_indent :: int
  cursorpos :: pos

text \<open>
  \<open>lines\<close>, \<open>insert_mark\<close>, \<open>sel_ranges\<close> (what \<open>tag_ranges('sel')\<close> returns, as
  pairs), \<open>modified\<close> (the flag behind \<open>edit_modified\<close>), \<open>modified_bound\<close> (whether
  a handler is bound to the modification event) and the two history stacks (snapshots
  of text and cursor; the widget is taken to have its history switched on) are the
  toolkit's state; the toolkit's count of modifications is kept as the flag only. \<open>settings_indent\<close> is \<open>self._settings['indent']\<close> and \<open>cursorpos\<close>
  is \<open>self._cursorpos\<close>.
\<close>

definition pos_less :: "pos \<Rightarrow> pos \<Rightarrow> bool" where
  "pos_less p q = (fst p < fst q \<or> (fst p = fst q \<and> snd p < snd q))"

definition line_at :: "string list \<Rightarrow> nat \<Rightarrow> string" where
  "line_at ls l = (if 1 \<le> l \<and> l \<le> length ls then ls ! (l - 1) else [])"

definition end_index :: "string list \<Rightarrow> pos" where
  "end_index ls = (length ls + 1, 0)"

text \<open>The index \<open>'L.C'\<close>.\<close>

definition make_index :: "string list \<Rightarrow> int \<Rightarrow> int \<Rightarrow> pos" where
  "make_index ls l c =
     (if l < 1 then (1, 0)
      else if int (length ls) < l then end_index ls
      else (nat l, min (nat c) (length (line_at ls (nat l)))))"

text \<open>The index modifiers \<open>+n l\<close> and \<open>-n l\<close>.\<close>

definition forw_lines :: "string list \<Rightarrow> pos \<Rightarrow> nat \<Rightarrow> pos" where
  "forw_lines ls p n =
     (let l = fst p + n
      in if length ls < l then end_index ls
         else (l, min (snd p) (length (line_at ls l))))"

definition back_lines :: "string list \<Rightarrow> pos \<Rightarrow> nat \<Rightarrow> pos" where
  "back_lines ls p n =
     (let l = max 1 (fst p - n)
      in (l, min (snd p) (length (line_at ls l))))"

text \<open>\<open>get(index1, index2)\<close>: the characters from \<open>index1\<close> up to \<open>index2\<close>.\<close>

definition tk_get :: "string list \<Rightarrow> pos \<Rightarrow> pos \<Rightarrow> string" where
  "tk_get ls p q =
     (if fst p < fst q then
        drop (snd p) (line_at ls (fst p)) @ [newline]
        @ concat (map (\<lambda>l. line_at ls l @ [newline]) [fst p + 1 ..< fst q])
        @ take (snd q) (line_at ls (fst q))
      else if fst p = fst q \<and> snd p < snd q then
        take (snd q - snd p) (drop (snd p) (line_at ls (fst p)))
      else [])"

text \<open>\<open>str.split('\n')\<close>.\<close>

fun split_nl :: "string \<Rightarrow> string list" where
  "split_nl [] = [[]]"
| "split_nl (c # cs) =
     (if c = newline then [] # split_nl cs
      else (case split_nl cs of [] \<Rightarrow> [[c]] | p # ps \<Rightarrow> (c # p) # ps))"

definition insert_lines :: "string list \<Rightarrow> pos \<Rightarrow> string \<Rightarrow> string list" where
  "insert_lines ls p chars =
     (let L = line_at ls (fst p); ps = split_nl chars;
          new = (if length ps \<le> 1 then [take (snd p) L @ chars @ drop (snd p) L]
                 else (take (snd p) L @ hd ps) # butlast (tl ps) @ [last ps @ drop (snd p) L])
      in take (fst p - 1) ls @ new @ drop (fst p) ls)"

text \<open>
  Where a mark at \<open>m\<close> is after \<open>chars\<close> went in at \<open>p\<close>. A mark with right gravity
  (the insertion cursor) that sits at \<open>p\<close> moves behind the new text.
\<close>

definition shift_insert :: "pos \<Rightarrow> string \<Rightarrow> bool \<Rightarrow> pos \<Rightarrow> pos" where
  "shift_insert p chars right m =
     (let k = count_list chars newline
      in if pos_less m p \<or> (m = p \<and> \<not> right) then m
         else if fst m = fst p then
           (fst m + k,
            if k = 0 then snd m + length chars
            else length (last (split_nl chars)) + (snd m - snd p))
         else (fst m + k, snd m))"

text \<open>Where a mark at \<open>m\<close> is after the range from \<open>p\<close> to \<open>q\<close> was deleted.\<close>

definition shift_delete :: "pos \<Rightarrow> pos \<Rightarrow> pos \<Rightarrow> pos" where
  "shift_delete p q m =
     (if \<not> pos_less p m then m
      else if pos_less m q then p
      else if fst m = fst q then (fst p, snd p + (snd m - snd q))
      else (fst m - (fst q - fst p), snd m))"

definition delete_lines :: "string list \<Rightarrow> pos \<Rightarrow> pos \<Rightarrow> string list" where
  "delete_lines ls p q =
     take (fst p - 1) ls
     @ [take (snd p) (line_at ls (fst p)) @ drop (snd q) (line_at ls (fst q))]
     @ drop (fst q) ls"

text \<open>
  Every edit of the text sets the modified flag, pushes a snapshot on the undo stack
  and empties the redo stack.
\<close>

definition record_edit :: "'a widget_scheme \<Rightarrow> 'a widget_scheme" where
  "record_edit w =
     w\<lparr>modified := True,
       undo_stack := (lines w, insert_mark w) # undo_stack w,
       redo_stack := []\<rparr>"

text \<open>
  \<open>insert(index, chars)\<close>. An insertion at \<open>end\<close> goes before the last newline; an
  empty insertion changes nothing. The start of a selected range moves like a mark
  with right gravity and its end like a mark with left gravity.
\<close>

definition tk_insert :: "'a widget_scheme \<Rightarrow> pos \<Rightarrow> string \<Rightarrow> 'a widget_scheme" where
  "tk_insert w index chars =
     (let ls = lines w;
          p = (if length ls < fst index then (length ls, length (line_at ls (length ls)))
               else index)
      in if chars = [] then w
         else (record_edit w)
           \<lparr>lines := insert_lines ls p chars,
            insert_mark := shift_insert p chars True (insert_mark w),
            sel_ranges := map (\<lambda>(a, b). (shift_insert p chars True a, shift_insert p chars False b))
                            (sel_ranges w)\<rparr>)"

text \<open>
  \<open>delete(index1, index2)\<close>. The last newline is never deleted: a range that reaches
  \<open>end\<close> from the start of a line takes the newline before that line instead.
\<close>

definition tk_delete :: "'a widget_scheme \<Rightarrow> pos \<Rightarrow> pos \<Rightarrow> 'a widget_scheme" where
  "tk_delete w index1 index2 =
     (let ls = lines w;
          p = (if length ls < fst index2 \<and> snd index1 = 0 \<and> 1 < fst index1 \<and> fst index1 \<le> length ls
               then (fst index1 - 1, length (line_at ls (fst index1 - 1)))
               else index1);
          q = index2
      in if \<not> pos_less index1 index2 then w
         else (record_edit w)
           \<lparr>lines := delete_lines ls p q,
            insert_mark := shift_delete p q (insert_mark w),
            sel_ranges := filter (\<lambda>(a, b). pos_less a b)
                            (map (\<lambda>(a, b). (shift_delete p q a, shift_delete p q b)) (sel_ranges w))\<rparr>)"

text \<open>\<open>index('insert')\<close>.\<close>

definition index_insert :: "'a widget_scheme \<Rightarrow> pos" where
  "index_insert w = insert_mark w"

text \<open>\<open>edit_modified(arg)\<close> sets the modified flag.\<close>

definition edit_modified :: "'a widget_scheme \<Rightarrow> bool \<Rightarrow> 'a widget_scheme" where
  "edit_modified w arg = w\<lparr>modified := arg\<rparr>"

text \<open>
  \<open>edit_undo()\<close> and \<open>edit_redo()\<close>: the toolkit raises \<open>TclError\<close> when the stack is
  empty, and otherwise restores the snapshot on top of it.
\<close>

datatype error = ZeroDivisionError | TclError

definition edit_undo :: "'a widget_scheme \<Rightarrow> error + 'a widget_scheme" where
  "edit_undo w =
     (case undo_stack w of
        [] \<Rightarrow> Inl TclError
      | (ls, m) # rest \<Rightarrow>
          Inr (w\<lparr>lines := ls, insert_mark := m, modified := True,
                 undo_stack := rest,
                 redo_stack := (lines w, insert_mark w) # redo_stack w\<rparr>))"

definition edit_redo :: "'a widget_scheme \<Rightarrow> error + 'a widget_scheme" where
  "edit_redo w =
     (case redo_stack w of
        [] \<Rightarrow> Inl TclError
      | (ls, m) # rest \<Rightarrow>
          Inr (w\<lparr>lines := ls, insert_mark := m, modified := True,
                 redo_stack := rest,
                 undo_stack := (lines w, insert_mark w) # undo_stack w\<rparr>))"

section \<open>EditorText\<close>

text \<open>
  A listener is a callback without arguments. It is modelled as an observer: it
  reads the widget and changes the state of whoever registered it (a status bar, a
  line-number gutter), which is the field \<open>world\<close>. A listener that edits the widget
  or raises is outside this model. \<open>stdout\<close> holds the lines printed so far.
\<close>

type_synonym 'e listener = "widget \<Rightarrow> 'e \<Rightarrow> 'e"

record 'e editor = widget +
  on_cursor_move :: "'e listener list"
  on_modified :: "'e listener list"
  world :: 'e
  stdout :: "string list"

definition view :: "'a widget_scheme \<Rightarrow> widget" where
  "view w =
     \<lparr>lines = lines w, insert_mark = insert_mark w, sel_ranges = sel_ranges w,
      modified = modified w, modified_bound = modified_bound w,
      undo_stack = undo_stack w, redo_stack = redo_stack w,
      settings_indent = settings_indent w, cursorpos = cursorpos w\<rparr>"

text \<open>\<open>for callback in callbacks: callback()\<close>.\<close>

fun run_callbacks :: "'e listener list \<Rightarrow> 'e editor \<Rightarrow> 'e editor" where
  "run_callbacks [] ed = ed"
| "run_callbacks (callback # rest) ed =
     run_callbacks rest (ed\<lparr>world := callback (view ed) (world ed)\<rparr>)"

definition do_modified :: "'e editor \<Rightarrow> 'e editor" where
  "do_modified ed =
     (let ed1 = ed\<lparr>modified_bound := False\<rparr>;
          ed2 = edit_modified ed1 False;
          ed3 = ed2\<lparr>modified_bound := True\<rparr>
      in run_callbacks (on_modified ed3) ed3)"

definition do_cursor_move :: "'e editor \<Rightarrow> 'e editor" where
  "do_cursor_move ed =
     (let cursorpos' = index_insert ed
      in if cursorpos' \<noteq> cursorpos ed
         then (let ed1 = ed\<lparr>cursorpos := cursorpos'\<rparr>
               in run_callbacks (on_cursor_move ed1) ed1)
         else ed)"

text \<open>
  \<open>indent\<close> and \<open>dedent\<close> return the editor as they leave it and the number they
  return; \<open>width\<close> is the local variable \<open>indent\<close> of the source. The remainder by
  a width of zero raises.
\<close>

definition indent :: "'e editor \<Rightarrow> int \<Rightarrow> error + ('e editor \<times> int)" where
  "indent ed lineno =
     (let line = tk_get (lines ed) (make_index (lines ed) lineno 0)
                   (forw_lines (lines ed) (make_index (lines ed) lineno 0) 1);
          spaces = spacecount line;
          width = settings_indent ed
      in if width = 0 then Inl ZeroDivisionError
         else
           (let spaces2add = width - (spaces mod width);
                ed1 = tk_insert ed (make_index (lines ed) lineno 0)
                        (replicate (nat spaces2add) space);
                ed2 = do_cursor_move ed1
            in Inr (ed2, spaces + spaces2add)))"

definition dedent :: "'e editor \<Rightarrow> int \<Rightarrow> error + ('e editor \<times> int)" where
  "dedent ed lineno =
     (let line = tk_get (lines ed) (make_index (lines ed) lineno 0)
                   (forw_lines (lines ed) (make_index (lines ed) lineno 0) 1);
          spaces = spacecount line
      in if spaces = 0 then Inr (ed, 0)
         else if settings_indent ed = 0 then Inl ZeroDivisionError
         else
           (let howmany2del = spaces mod settings_indent ed;
                howmany2del = (if howmany2del = 0 then settings_indent ed else howmany2del);
                ed1 = tk_delete ed (make_index (lines ed) lineno 0)
                        (make_index (lines ed) lineno howmany2del);
                ed2 = do_cursor_move ed1
            in Inr (ed2, spaces - howmany2del)))"

text \<open>\<open>for lineno in range(first_lineno, last_lineno+1): action(lineno)\<close>.\<close>

fun for_linenos ::
  "('e editor \<Rightarrow> int \<Rightarrow> error + ('e editor \<times> int)) \<Rightarrow> int list \<Rightarrow> 'e editor \<Rightarrow> error + 'e editor"
where
  "for_linenos action [] ed = Inr ed"
| "for_linenos action (lineno # rest) ed =
     (case action ed lineno of
        Inl e \<Rightarrow> Inl e
      | Inr (ed', r) \<Rightarrow> for_linenos action rest ed')"

text \<open>
  \<open>_on_tab\<close>. Unpacking \<open>tag_ranges('sel')\<close> into two names succeeds when there is
  exactly one selected range and raises \<open>ValueError\<close>, which the handler catches,
  otherwise.
\<close>

definition on_tab :: "'e editor \<Rightarrow> bool \<Rightarrow> error + ('e editor \<times> string)" where
  "on_tab ed shifted =
     (let action = (if shifted then dedent else indent)
      in case
           (case sel_ranges ed of
              [(sel_start, sel_end)] \<Rightarrow>
                (let first_lineno = int (fst sel_start);
                     last_lineno = int (fst sel_end)
                 in for_linenos action [first_lineno .. last_lineno] ed)
            | _ \<Rightarrow>
                (let lineno = int (fst (index_insert ed));
                     before_cursor = tk_get (lines ed) (make_index (lines ed) lineno 0)
                                       (index_insert ed)
                 in if isspace before_cursor \<or> before_cursor = []
                    then map_sum id fst (action ed lineno)
                    else Inr (ed\<lparr>stdout := stdout ed @
                           [''complete '' @ (if shifted then ''previous'' else ''next'')]\<rparr>)))
         of
           Inl e \<Rightarrow> Inl e
         | Inr ed' \<Rightarrow> Inr (ed', ''break''))"

text \<open>\<open>_autoindent\<close>.\<close>

definition autoindent :: "'e editor \<Rightarrow> error + 'e editor" where
  "autoindent ed =
     (let lineno = int (fst (index_insert ed));
          prevline = tk_get (lines ed)
                       (back_lines (lines ed) (make_index (lines ed) lineno 0) 1)
                       (make_index (lines ed) lineno 0)
      in case
           (if endswith (rstrip prevline) [CHR '':'', CHR ''('', CHR ''['', CHR ''{'']
            then map_sum id fst (indent ed lineno)
            else Inr ed)
         of
           Inl e \<Rightarrow> Inl e
         | Inr ed1 \<Rightarrow>
             Inr (tk_insert ed1 (index_insert ed1)
                    (replicate (nat (spacecount prevline)) space)))"

text \<open>\<open>undo\<close> and \<open>redo\<close> return \<open>None\<close> or \<open>'break'\<close>.\<close>

definition undo :: "'e editor \<Rightarrow> 'e editor \<times> string option" where
  "undo ed =
     (case edit_undo ed of
        Inl e \<Rightarrow> (ed, None)
      | Inr ed1 \<Rightarrow> (do_cursor_move ed1, Some ''break''))"

definition redo :: "'e editor \<Rightarrow> 'e editor \<times> string option" where
  "redo ed =
     (case edit_redo ed of
        Inl e \<Rightarrow> (ed, None)
      | Inr ed1 \<Rightarrow> (do_cursor_move ed1, Some ''break''))"

text \<open>
  The text that \<open>indent\<close> and \<open>dedent\<close> read for a line number:
  \<open>get('%d.0' % lineno, '%d.0+1l' % lineno)\<close>.
\<close>

definition get_line :: "string list \<Rightarrow> int \<Rightarrow> string" where
  "get_line ls lineno =
     tk_get ls (make_index ls lineno 0) (forw_lines ls (make_index ls lineno 0) 1)"

text \<open>
  An editor as \<open>__init__\<close> leaves it, apart from the text, the cursor and the
  settings, which are given: no selection, nothing in the history, no listener.
\<close>

definition new_editor :: "string list \<Rightarrow> pos \<Rightarrow> int \<Rightarrow> unit editor" where
  "new_editor ls cursor width =
     \<lparr>lines = ls, insert_mark = cursor, sel_ranges = [], modified = False,
      modified_bound = True, undo_stack = [], redo_stack = [],
      settings_indent = width, cursorpos = (1, 0),
      on_cursor_move = [], on_modified = [], world = (), stdout = []\<rparr>"

text \<open>
  A listener under observation: it does what \<open>f\<close> does and also appends to a log its
  name \<open>i\<close> and the widget as it saw it. The world of such listeners is the log paired
  with the world of the listeners they wrap.
\<close>

definition logging :: "'i \<Rightarrow> 'e listener \<Rightarrow> (('i \<times> widget) list \<times> 'e) listener" where
  "logging i f = (\<lambda>v (log, e). (log @ [(i, v)], f v e))"

text \<open>
  An editor whose listeners, named by numbers and registered in the order given on
  both lists, only log their calls; the cached cursor position is given apart from
  the cursor.
\<close>

definition watched_editor ::
  "string list \<Rightarrow> pos \<Rightarrow> pos \<Rightarrow> int \<Rightarrow> nat list \<Rightarrow> ((nat \<times> widget) list \<times> unit) editor"
where
  "watched_editor ls cursor cache width names =
     \<lparr>lines = ls, insert_mark = cursor, sel_ranges = [], modified = True,
      modified_bound = True, undo_stack = [], redo_stack = [],
      settings_indent = width, cursorpos = cache,
      on_cursor_move = map (\<lambda>i. logging i (\<lambda>v e. e)) names,
      on_modified = map (\<lambda>i. logging i (\<lambda>v e. e)) names,
      world = ([], ()), stdout = []\<rparr>"

text \<open>
  The text of a line after one indent and after one dedent at indent width \<open>w\<close>, as
  the specification describes them: pad with spaces up to the next multiple of \<open>w\<close>;
  remove leading characters down to the previous multiple of \<open>w\<close>.
\<close>

definition indented :: "int \<Rightarrow> string \<Rightarrow> string" where
  "indented w l = replicate (nat (w - spacecount l mod w)) space @ l"

definition dedented :: "int \<Rightarrow> string \<Rightarrow> string" where
  "dedented w l =
     (if spacecount l = 0 then l
      else drop (nat (if spacecount l mod w = 0 then w else spacecount l mod w)) l)"

section \<open>Properties of spacecount\<close>

lemma spacecount_loop_takeWhile:
  "spacecount_loop result s = result + int (length (takeWhile indent_char s))"
  by (induction s arbitrary: result) (auto simp: indent_char_def)

lemma spacecount_takeWhile: "spacecount s = int (length (takeWhile indent_char s))"
  by (simp add: spacecount_def spacecount_loop_takeWhile)

lemma spacecount_nonneg: "0 \<le> spacecount s"
  by (simp add: spacecount_takeWhile)

lemma spacecount_le_length: "spacecount s \<le> int (length s)"
  by (simp add: spacecount_takeWhile length_takeWhile_le)

section \<open>The buffer and the cursor-move check\<close>

lemma takeWhile_indent_char_newline:
  "takeWhile indent_char (l @ newline # r) = takeWhile indent_char l"
  by (induction l) (auto simp: indent_char_def)

lemma spacecount_append_newline: "spacecount (l @ newline # r) = spacecount l"
  by (simp add: spacecount_takeWhile takeWhile_indent_char_newline)

lemma get_line_valid:
  "1 \<le> lineno \<Longrightarrow> lineno \<le> int (length ls) \<Longrightarrow>
   get_line ls lineno = ls ! (nat lineno - 1) @ [newline]"
  by (auto simp: get_line_def tk_get_def make_index_def forw_lines_def end_index_def line_at_def Let_def)

lemma get_line_beyond:
  "int (length ls) < lineno \<Longrightarrow> get_line ls lineno = []"
  by (auto simp: get_line_def tk_get_def make_index_def forw_lines_def end_index_def line_at_def Let_def)

lemma split_nl_no_newline: "newline \<notin> set s \<Longrightarrow> split_nl s = [s]"
  by (induction s) auto

lemma split_nl_spaces: "split_nl (replicate k space) = [replicate k space]"
  by (rule split_nl_no_newline) (auto simp: space_def newline_def)

lemma insert_lines_spaces:
  "1 \<le> l \<Longrightarrow> l \<le> length ls \<Longrightarrow>
   insert_lines ls (l, c) (replicate k space)
     = ls[l - 1 := take c (ls ! (l - 1)) @ replicate k space @ drop c (ls ! (l - 1))]"
  by (cases l) (simp_all add: insert_lines_def split_nl_spaces line_at_def upd_conv_take_nth_drop Let_def)

lemma delete_lines_same_line:
  "1 \<le> l \<Longrightarrow> l \<le> length ls \<Longrightarrow>
   delete_lines ls (l, c) (l, d) = ls[l - 1 := take c (ls ! (l - 1)) @ drop d (ls ! (l - 1))]"
  by (cases l) (simp_all add: delete_lines_def line_at_def upd_conv_take_nth_drop)

lemma view_world [simp]: "view (ed\<lparr>world := x\<rparr>) = view ed"
  by (simp add: view_def)

lemma run_callbacks_fold:
  "run_callbacks cbs ed = ed\<lparr>world := fold (\<lambda>cb. cb (view ed)) cbs (world ed)\<rparr>"
  by (induction cbs arbitrary: ed) simp_all

lemma lines_run_callbacks [simp]: "lines (run_callbacks cbs ed) = lines ed"
  by (simp add: run_callbacks_fold)

lemma lines_do_cursor_move [simp]: "lines (do_cursor_move ed) = lines ed"
  by (simp add: do_cursor_move_def Let_def)

lemma insert_mark_do_cursor_move [simp]: "insert_mark (do_cursor_move ed) = insert_mark ed"
  by (simp add: do_cursor_move_def Let_def run_callbacks_fold)

lemma settings_do_cursor_move [simp]: "settings_indent (do_cursor_move ed) = settings_indent ed"
  by (simp add: do_cursor_move_def Let_def run_callbacks_fold)

lemma sel_ranges_do_cursor_move [simp]: "sel_ranges (do_cursor_move ed) = sel_ranges ed"
  by (simp add: do_cursor_move_def Let_def run_callbacks_fold)

lemma stdout_do_cursor_move [simp]: "stdout (do_cursor_move ed) = stdout ed"
  by (simp add: do_cursor_move_def Let_def run_callbacks_fold)

lemma lines_tk_insert_spaces:
  "1 \<le> l \<Longrightarrow> l \<le> length (lines w) \<Longrightarrow>
   lines (tk_insert w (l, c) (replicate k space))
     = (lines w)[l - 1 := take c (lines w ! (l - 1)) @ replicate k space @ drop c (lines w ! (l - 1))]"
  by (cases "k = 0") (simp_all add: tk_insert_def Let_def record_edit_def insert_lines_spaces)

lemma indent_unfold:
  "indent ed lineno =
     (if settings_indent ed = 0 then Inl ZeroDivisionError
      else Inr (do_cursor_move (tk_insert ed (make_index (lines ed) lineno 0)
                  (replicate (nat (settings_indent ed
                      - spacecount (get_line (lines ed) lineno) mod settings_indent ed)) space)),
                spacecount (get_line (lines ed) lineno)
                  + (settings_indent ed - spacecount (get_line (lines ed) lineno) mod settings_indent ed)))"
  by (simp add: indent_def get_line_def Let_def)

lemma dedent_unfold:
  "dedent ed lineno =
     (if spacecount (get_line (lines ed) lineno) = 0 then Inr (ed, 0)
      else if settings_indent ed = 0 then Inl ZeroDivisionError
      else Inr (do_cursor_move (tk_delete ed (make_index (lines ed) lineno 0)
                  (make_index (lines ed) lineno
                     (if spacecount (get_line (lines ed) lineno) mod settings_indent ed = 0
                      then settings_indent ed
                      else spacecount (get_line (lines ed) lineno) mod settings_indent ed))),
                spacecount (get_line (lines ed) lineno)
                  - (if spacecount (get_line (lines ed) lineno) mod settings_indent ed = 0
                      then settings_indent ed
                      else spacecount (get_line (lines ed) lineno) mod settings_indent ed)))"
  by (simp add: dedent_def get_line_def Let_def)

lemma next_multiple_eq:
  fixes s w :: int
  shows "s + (w - s mod w) = w * (s div w + 1)"
proof -
  have "s - s mod w = w * (s div w)" by (simp add: minus_mod_eq_mult_div)
  then show ?thesis by (simp add: algebra_simps)
qed

lemma next_multiple_mod:
  fixes s w :: int
  shows "(s + (w - s mod w)) mod w = 0"
  by (simp add: next_multiple_eq)

lemma next_multiple_greater:
  fixes s w :: int
  shows "0 < w \<Longrightarrow> s < s + (w - s mod w)"
  by simp

lemma next_multiple_least:
  fixes s w m :: int
  assumes "0 < w" and "m mod w = 0" and "s < m"
  shows "s + (w - s mod w) \<le> m"
proof -
  from assms(2) obtain q where q: "m = w * q" by (auto simp: mod_eq_0_iff_dvd)
  have "w * (s div w) + s mod w = s" by simp
  moreover have "0 \<le> s mod w" using assms(1) by simp
  ultimately have "w * (s div w) \<le> s" by linarith
  with assms(3) q have "w * (s div w) < w * q" by simp
  with assms(1) have "s div w < q" by (simp add: mult_less_cancel_left_pos)
  then have "s div w + 1 \<le> q" by simp
  with assms(1) have "w * (s div w + 1) \<le> w * q" by (simp add: mult_left_mono)
  then show ?thesis by (simp add: next_multiple_eq q)
qed

lemma indent_valid_line:
  assumes "settings_indent ed \<noteq> 0" and "1 \<le> lineno" and "lineno \<le> int (length (lines ed))"
  shows "\<exists>ed'. indent ed lineno
           = Inr (ed', spacecount (lines ed ! (nat lineno - 1))
                    + (settings_indent ed - spacecount (lines ed ! (nat lineno - 1)) mod settings_indent ed))
         \<and> lines ed' = (lines ed)[nat lineno - 1 :=
              replicate (nat (settings_indent ed - spacecount (lines ed ! (nat lineno - 1)) mod settings_indent ed)) space
              @ lines ed ! (nat lineno - 1)]"
proof -
  have g: "get_line (lines ed) lineno = lines ed ! (nat lineno - 1) @ [newline]"
    using assms by (simp add: get_line_valid)
  have i: "make_index (lines ed) lineno 0 = (nat lineno, 0)"
    using assms by (simp add: make_index_def)
  show ?thesis
    using assms by (simp add: indent_unfold g i spacecount_append_newline lines_tk_insert_spaces)
qed

lemma indent_char_space: "indent_char space"
  by (simp add: indent_char_def char_isspace_def whitespace_chars_def space_def newline_def)

lemma spacecount_spaces: "spacecount (replicate k space @ l) = int k + spacecount l"
  by (induction k) (simp_all add: spacecount_takeWhile indent_char_space)

section \<open>indent\<close>

text \<open>
  C1. On a line of the buffer whose leading-space count is \<open>s\<close> (what \<open>spacecount\<close>
  gives for the text of the line), with a configured indent width \<open>w > 0\<close>, \<open>indent\<close>
  puts exactly \<open>w - s mod w\<close> spaces in front of that line, leaves the other lines
  alone, and returns the leading-space count the line has afterwards, which is the
  smallest multiple of \<open>w\<close> strictly greater than \<open>s\<close>.
\<close>

theorem indent_next_multiple:
  assumes "w = settings_indent ed" and "0 < w"
    and "1 \<le> lineno" and "lineno \<le> int (length (lines ed))"
    and "s = spacecount (get_line (lines ed) lineno)"
  shows "\<exists>ed' r. indent ed lineno = Inr (ed', r)
           \<and> 0 < w - s mod w
           \<and> lines ed' = (lines ed)[nat lineno - 1 :=
                replicate (nat (w - s mod w)) space @ lines ed ! (nat lineno - 1)]
           \<and> r = s + (w - s mod w)
           \<and> r = spacecount (get_line (lines ed') lineno)
           \<and> r mod w = 0 \<and> s < r \<and> (\<forall>m. m mod w = 0 \<and> s < m \<longrightarrow> r \<le> m)"
proof -
  let ?i = "nat lineno - 1"
  have s: "s = spacecount (lines ed ! ?i)"
    using assms by (simp add: get_line_valid spacecount_append_newline)
  have pos: "0 < w - s mod w"
    using assms(2) by simp
  from assms(1-4) obtain ed' where
    r: "indent ed lineno = Inr (ed', s + (w - s mod w))" and
    l: "lines ed' = (lines ed)[?i := replicate (nat (w - s mod w)) space @ lines ed ! ?i]"
    using indent_valid_line [of ed lineno] s by auto
  have i: "?i < length (lines ed)" using assms(3,4) by linarith
  have len: "length (lines ed') = length (lines ed)" by (simp add: l)
  have "get_line (lines ed') lineno = lines ed' ! ?i @ [newline]"
    using assms(3,4) len by (simp add: get_line_valid)
  then have c: "spacecount (get_line (lines ed') lineno) = s + (w - s mod w)"
    using i pos by (simp add: l spacecount_append_newline spacecount_spaces s)
  have least: "\<forall>m. m mod w = 0 \<and> s < m \<longrightarrow> s + (w - s mod w) \<le> m"
  proof (intro allI impI)
    fix m assume "m mod w = 0 \<and> s < m"
    then show "s + (w - s mod w) \<le> m"
      using next_multiple_least [OF assms(2), of m s] by simp
  qed
  show ?thesis
    using r pos l c next_multiple_mod [of s w] next_multiple_greater [OF assms(2), of s] least
    by auto
qed

theorem indent_next_multiple_witness:
  "(\<exists>ed'. indent (new_editor [''x''] (1, 0) 4) 1 = Inr (ed', 4) \<and> lines ed' = [''    x''])
   \<and> (\<exists>ed'. indent (new_editor [''   x''] (1, 0) 4) 1 = Inr (ed', 4) \<and> lines ed' = [''    x''])
   \<and> (\<exists>ed'. indent (new_editor [''    x''] (1, 0) 4) 1 = Inr (ed', 8) \<and> lines ed' = [''        x''])"
proof -
  have s: "spacecount (get_line [''x''] 1) = 0" "spacecount (get_line [''   x''] 1) = 3"
    "spacecount (get_line [''    x''] 1) = 4"
    by (simp_all add: get_line_valid spacecount_takeWhile indent_char_def char_isspace_def
        whitespace_chars_def newline_def)
  have a: "\<exists>ed'. indent (new_editor [''x''] (1, 0) 4) 1 = Inr (ed', 4) \<and> lines ed' = [''    x'']"
    using indent_next_multiple [of 4 "new_editor [''x''] (1, 0) 4" 1 0]
    by (auto simp: new_editor_def s space_def eval_nat_numeral)
  have b: "\<exists>ed'. indent (new_editor [''   x''] (1, 0) 4) 1 = Inr (ed', 4) \<and> lines ed' = [''    x'']"
    using indent_next_multiple [of 4 "new_editor [''   x''] (1, 0) 4" 1 3]
    by (auto simp: new_editor_def s space_def eval_nat_numeral)
  have c: "\<exists>ed'. indent (new_editor [''    x''] (1, 0) 4) 1 = Inr (ed', 8) \<and> lines ed' = [''        x'']"
    using indent_next_multiple [of 4 "new_editor [''    x''] (1, 0) 4" 1 4]
    by (auto simp: new_editor_def s space_def eval_nat_numeral)
  from a b c show ?thesis by blast
qed

section \<open>What spacecount counts\<close>

lemma indent_char_prefix_le:
  "n \<le> length s \<Longrightarrow> \<forall>c \<in> set (take n s). indent_char c \<Longrightarrow> n \<le> length (takeWhile indent_char s)"
proof (induction s arbitrary: n)
  case Nil
  then show ?case by simp
next
  case (Cons a s)
  show ?case
  proof (cases n)
    case 0
    then show ?thesis by simp
  next
    case (Suc m)
    with Cons.prems have "indent_char a" "m \<le> length s" "\<forall>c \<in> set (take m s). indent_char c"
      by auto
    with Cons.IH [of m] Suc show ?thesis by simp
  qed
qed

text \<open>
  C10. For every string, \<open>spacecount\<close> returns the length of the longest prefix made of
  whitespace characters other than the newline. A tab counts like a space, so \<open>indent\<close>
  and \<open>dedent\<close> treat it as indentation, and a newline ends the count although it is
  whitespace.
\<close>

theorem spacecount_longest_prefix:
  "spacecount s = int (length (takeWhile indent_char s))
   \<and> (\<forall>c \<in> set (take (nat (spacecount s)) s). char_isspace c \<and> c \<noteq> newline)
   \<and> (\<forall>n \<le> length s. (\<forall>c \<in> set (take n s). char_isspace c \<and> c \<noteq> newline)
          \<longrightarrow> int n \<le> spacecount s)
   \<and> spacecount (CHR 0x09 # s) = 1 + spacecount s
   \<and> char_isspace newline
   \<and> spacecount (newline # s) = 0
   \<and> map_sum id (\<lambda>(ed', r). (lines ed', r)) (indent (new_editor [CHR 0x09 # ''x''] (1, 0) 4) 1)
       = Inr ([''   '' @ CHR 0x09 # ''x''], 4)
   \<and> map_sum id (\<lambda>(ed', r). (lines ed', r)) (dedent (new_editor [CHR 0x09 # ''x''] (1, 0) 4) 1)
       = Inr ([''x''], 0)"
proof -
  have a: "spacecount s = int (length (takeWhile indent_char s))"
    by (rule spacecount_takeWhile)
  have "take (length (takeWhile indent_char s)) s = takeWhile indent_char s"
    by (metis takeWhile_eq_take)
  then have b: "\<forall>c \<in> set (take (nat (spacecount s)) s). char_isspace c \<and> c \<noteq> newline"
    using set_takeWhileD [of _ indent_char s] by (auto simp: a indent_char_def)
  have c: "\<forall>n \<le> length s. (\<forall>c \<in> set (take n s). char_isspace c \<and> c \<noteq> newline)
          \<longrightarrow> int n \<le> spacecount s"
    using indent_char_prefix_le [of _ s] by (auto simp: a indent_char_def)
  have d: "spacecount (CHR 0x09 # s) = 1 + spacecount s"
    by (simp add: spacecount_takeWhile indent_char_def char_isspace_def whitespace_chars_def newline_def)
  have e: "char_isspace newline"
    by (simp add: char_isspace_def whitespace_chars_def newline_def)
  have f: "spacecount (newline # s) = 0"
    by (simp add: spacecount_takeWhile indent_char_def)
  have t: "spacecount (get_line [CHR 0x09 # ''x''] 1) = 1"
    by (simp add: get_line_valid spacecount_takeWhile indent_char_def char_isspace_def
        whitespace_chars_def newline_def)
  have g: "map_sum id (\<lambda>(ed', r). (lines ed', r)) (indent (new_editor [CHR 0x09 # ''x''] (1, 0) 4) 1)
       = Inr ([''   '' @ CHR 0x09 # ''x''], 4)"
    by (simp add: indent_unfold new_editor_def t make_index_def line_at_def tk_insert_def
        insert_lines_def record_edit_def Let_def space_def newline_def eval_nat_numeral)
  have h: "map_sum id (\<lambda>(ed', r). (lines ed', r)) (dedent (new_editor [CHR 0x09 # ''x''] (1, 0) 4) 1)
       = Inr ([''x''], 0)"
    by (simp add: dedent_unfold new_editor_def t make_index_def line_at_def tk_delete_def
        pos_less_def record_edit_def delete_lines_def Let_def)
  from a b c d e f g h show ?thesis by blast
qed

theorem spacecount_longest_prefix_witness:
  "spacecount [CHR 0x09, CHR 0x20, newline, CHR 0x20] = 2
   \<and> int 2 \<le> spacecount [CHR 0x09, CHR 0x20, newline, CHR 0x20]
   \<and> char_isspace newline"
  using spacecount_longest_prefix [of "[CHR 0x09, CHR 0x20, newline, CHR 0x20]"]
  by (simp add: indent_char_def char_isspace_def whitespace_chars_def newline_def)

section \<open>dedent\<close>

lemma pos_multiple_ge:
  fixes d w :: int
  assumes "0 < d" and "d mod w = 0" and "0 < w"
  shows "w \<le> d"
proof (rule ccontr)
  assume "\<not> w \<le> d"
  with assms(1) have "d mod w = d" by simp
  with assms(1,2) show False by simp
qed

lemma greatest_multiple_below:
  fixes r s w m :: int
  assumes "0 < w" and "r mod w = 0" and "s \<le> r + w" and "m mod w = 0" and "m < s"
  shows "m \<le> r"
proof (rule ccontr)
  assume "\<not> m \<le> r"
  then have "0 < m - r" by simp
  moreover have "(m - r) mod w = 0"
    using assms(2,4) by (simp add: mod_eq_0_iff_dvd)
  ultimately have "w \<le> m - r" using assms(1) by (rule pos_multiple_ge)
  with assms(3,5) show False by simp
qed

lemma takeWhile_drop_prefix:
  "k \<le> length (takeWhile P l) \<Longrightarrow> takeWhile P (drop k l) = drop k (takeWhile P l)"
proof (induction l arbitrary: k)
  case Nil
  then show ?case by simp
next
  case (Cons a l)
  then show ?case by (cases k) (auto split: if_splits)
qed

lemma spacecount_drop:
  "0 \<le> k \<Longrightarrow> k \<le> spacecount l \<Longrightarrow> spacecount (drop (nat k) l) = spacecount l - k"
  by (simp add: spacecount_takeWhile takeWhile_drop_prefix)

lemma lines_tk_delete_same_line:
  "1 \<le> l \<Longrightarrow> l \<le> length (lines w) \<Longrightarrow>
   lines (tk_delete w (l, 0) (l, c)) = (lines w)[l - 1 := drop c (lines w ! (l - 1))]"
  by (cases "c = 0")
     (simp_all add: tk_delete_def Let_def pos_less_def record_edit_def delete_lines_same_line)

text \<open>The number of characters \<open>dedent\<close> deletes from a line with \<open>s\<close> leading spaces.\<close>

lemma howmany2del_bounds:
  fixes s w :: int
  assumes "0 < w" and "0 < s"
  shows "0 < (if s mod w = 0 then w else s mod w)"
    and "(if s mod w = 0 then w else s mod w) \<le> w"
    and "(if s mod w = 0 then w else s mod w) \<le> s"
proof -
  have a: "0 \<le> s mod w" and b: "s mod w < w" and c: "s mod w \<le> s"
    using assms by (simp_all add: zmod_le_nonneg_dividend)
  have d: "s mod w = 0 \<Longrightarrow> w \<le> s"
    using assms by (simp add: pos_multiple_ge)
  show "0 < (if s mod w = 0 then w else s mod w)"
  proof (cases "s mod w = 0")
    case True
    then show ?thesis using assms(1) by simp
  next
    case False
    with a have "0 < s mod w" by linarith
    with False show ?thesis by simp
  qed
  show "(if s mod w = 0 then w else s mod w) \<le> w"
    using b by (cases "s mod w = 0") simp_all
  show "(if s mod w = 0 then w else s mod w) \<le> s"
    using c d by (cases "s mod w = 0") simp_all
qed

lemma dedent_valid_line:
  assumes "0 < settings_indent ed" and "1 \<le> lineno" and "lineno \<le> int (length (lines ed))"
    and "0 < spacecount (lines ed ! (nat lineno - 1))"
  shows "\<exists>ed'. dedent ed lineno
           = Inr (ed', spacecount (lines ed ! (nat lineno - 1))
                    - (if spacecount (lines ed ! (nat lineno - 1)) mod settings_indent ed = 0
                       then settings_indent ed
                       else spacecount (lines ed ! (nat lineno - 1)) mod settings_indent ed))
         \<and> lines ed' = (lines ed)[nat lineno - 1 :=
              drop (nat (if spacecount (lines ed ! (nat lineno - 1)) mod settings_indent ed = 0
                         then settings_indent ed
                         else spacecount (lines ed ! (nat lineno - 1)) mod settings_indent ed))
                (lines ed ! (nat lineno - 1))]"
proof -
  let ?L = "lines ed ! (nat lineno - 1)"
  let ?k = "if spacecount ?L mod settings_indent ed = 0 then settings_indent ed
            else spacecount ?L mod settings_indent ed"
  have g: "get_line (lines ed) lineno = ?L @ [newline]"
    using assms by (simp add: get_line_valid)
  have i0: "make_index (lines ed) lineno 0 = (nat lineno, 0)"
    using assms by (simp add: make_index_def)
  have n: "1 \<le> nat lineno" "nat lineno \<le> length (lines ed)"
    using assms(2,3) by linarith+
  have ik: "make_index (lines ed) lineno ?k = (nat lineno, min (nat ?k) (length ?L))"
    using assms(2,3) n by (simp add: make_index_def line_at_def)
  have l: "lines (tk_delete ed (nat lineno, 0) (nat lineno, min k (length ?L)))
           = (lines ed)[nat lineno - 1 := drop k ?L]" for k
  proof -
    have "drop (min k (length ?L)) ?L = drop k ?L"
      by (cases "k \<le> length ?L") (simp_all add: min_def)
    then show ?thesis using n by (simp only: lines_tk_delete_same_line)
  qed
  define ed1 where
    "ed1 = do_cursor_move (tk_delete ed (nat lineno, 0) (nat lineno, min (nat ?k) (length ?L)))"
  have r: "dedent ed lineno = Inr (ed1, spacecount ?L - ?k)"
    using assms(1,4) unfolding dedent_unfold g i0 ik spacecount_append_newline ed1_def
    by simp
  have "lines ed1 = (lines ed)[nat lineno - 1 := drop (nat ?k) ?L]"
    unfolding ed1_def by (simp only: lines_do_cursor_move l)
  with r show ?thesis by blast
qed

lemma previous_multiple:
  fixes s w :: int
  assumes "0 < w" and "0 < s" and "k = (if s mod w = 0 then w else s mod w)"
  shows "(s - k) mod w = 0" and "0 \<le> s - k" and "s - k < s"
    and "m mod w = 0 \<Longrightarrow> m < s \<Longrightarrow> m \<le> s - k"
proof -
  have k: "0 < k" "k \<le> w" "k \<le> s"
    using howmany2del_bounds [OF assms(1,2)] assms(3) by simp_all
  show m: "(s - k) mod w = 0"
  proof (cases "s mod w = 0")
    case True
    then show ?thesis using assms(3) by (simp add: mod_diff_eq [symmetric, of s w w])
  next
    case False
    then show ?thesis using assms(3) by (simp add: minus_mod_eq_mult_div)
  qed
  show "0 \<le> s - k" using k by simp
  show "s - k < s" using k by simp
  assume a: "m mod w = 0" and c: "m < s"
  have b: "s \<le> (s - k) + w" using k by simp
  show "m \<le> s - k"
    by (rule greatest_multiple_below [OF assms(1) m b a c])
qed

text \<open>
  C2. On a line of the buffer whose leading-space count is \<open>s\<close> (what \<open>spacecount\<close>
  gives for the text of the line), with a configured indent width \<open>w > 0\<close>: when \<open>s = 0\<close>, \<open>dedent\<close> changes nothing and returns 0; when
  \<open>s > 0\<close>, it deletes \<open>s mod w\<close> characters, or \<open>w\<close> when that is 0, from the start
  of the line and returns the leading-space count the line has afterwards, which is
  the largest multiple of \<open>w\<close> strictly less than \<open>s\<close> and is not negative.
\<close>

theorem dedent_previous_multiple:
  assumes "w = settings_indent ed" and "0 < w"
    and "1 \<le> lineno" and "lineno \<le> int (length (lines ed))"
    and "s = spacecount (get_line (lines ed) lineno)"
  shows "(s = 0 \<longrightarrow> dedent ed lineno = Inr (ed, 0))
       \<and> (0 < s \<longrightarrow> (\<exists>ed' r k. dedent ed lineno = Inr (ed', r)
             \<and> k = (if s mod w = 0 then w else s mod w)
             \<and> lines ed' = (lines ed)[nat lineno - 1 :=
                  drop (nat k) (lines ed ! (nat lineno - 1))]
             \<and> int (length (lines ed' ! (nat lineno - 1)))
                  = int (length (lines ed ! (nat lineno - 1))) - k
             \<and> r = s - k
             \<and> r = spacecount (get_line (lines ed') lineno)
             \<and> 0 \<le> r \<and> r mod w = 0 \<and> r < s
             \<and> (\<forall>m. m mod w = 0 \<and> m < s \<longrightarrow> m \<le> r)))"
proof (intro conjI impI)
  assume "s = 0"
  with assms(5) have "spacecount (get_line (lines ed) lineno) = 0" by simp
  then show "dedent ed lineno = Inr (ed, 0)"
    by (simp add: dedent_unfold)
next
  assume pos: "0 < s"
  let ?i = "nat lineno - 1"
  let ?L = "lines ed ! ?i"
  define k where "k = (if s mod w = 0 then w else s mod w)"
  have sL: "spacecount ?L = s"
    unfolding assms(5) using assms(3,4) by (simp add: get_line_valid spacecount_append_newline)
  have posL: "0 < spacecount ?L" and wpos: "0 < settings_indent ed"
    using pos assms(2) unfolding sL assms(1) by simp_all
  obtain ed' where
    r0: "dedent ed lineno
           = Inr (ed', spacecount ?L
                    - (if spacecount ?L mod settings_indent ed = 0 then settings_indent ed
                       else spacecount ?L mod settings_indent ed))" and
    l0: "lines ed' = (lines ed)[?i :=
           drop (nat (if spacecount ?L mod settings_indent ed = 0 then settings_indent ed
                      else spacecount ?L mod settings_indent ed)) ?L]"
    using dedent_valid_line [OF wpos assms(3,4) posL] by blast
  have r: "dedent ed lineno = Inr (ed', s - k)"
    using r0 unfolding sL assms(1) [symmetric] k_def .
  have l: "lines ed' = (lines ed)[?i := drop (nat k) ?L]"
    using l0 unfolding sL assms(1) [symmetric] k_def .
  have k: "0 < k" "k \<le> w" "k \<le> s"
    using howmany2del_bounds [OF assms(2) pos] unfolding k_def by blast+
  have i: "?i < length (lines ed)" using assms(3,4) by linarith
  have nth: "lines ed' ! ?i = drop (nat k) ?L"
    unfolding l using i by simp
  have "s \<le> int (length ?L)"
    using spacecount_le_length [of ?L] unfolding sL .
  with k(1,3) have n: "int (length (lines ed' ! ?i)) = int (length ?L) - k"
    unfolding nth by simp
  have len: "length (lines ed') = length (lines ed)"
    unfolding l by simp
  have g: "get_line (lines ed') lineno = lines ed' ! ?i @ [newline]"
    using assms(3,4) len by (simp add: get_line_valid)
  have "spacecount (drop (nat k) ?L) = spacecount ?L - k"
    using k(1,3) unfolding sL [symmetric] by (intro spacecount_drop) simp_all
  then have c: "s - k = spacecount (get_line (lines ed') lineno)"
    unfolding g nth spacecount_append_newline sL by simp
  have greatest: "\<forall>m. m mod w = 0 \<and> m < s \<longrightarrow> m \<le> s - k"
  proof (intro allI impI)
    fix m assume a: "m mod w = 0 \<and> m < s"
    show "m \<le> s - k"
      by (rule previous_multiple(4) [OF assms(2) pos k_def conjunct1 [OF a] conjunct2 [OF a]])
  qed
  have P: "dedent ed lineno = Inr (ed', s - k)
             \<and> k = (if s mod w = 0 then w else s mod w)
             \<and> lines ed' = (lines ed)[nat lineno - 1 :=
                  drop (nat k) (lines ed ! (nat lineno - 1))]
             \<and> int (length (lines ed' ! (nat lineno - 1)))
                  = int (length (lines ed ! (nat lineno - 1))) - k
             \<and> s - k = s - k
             \<and> s - k = spacecount (get_line (lines ed') lineno)
             \<and> 0 \<le> s - k \<and> (s - k) mod w = 0 \<and> s - k < s
             \<and> (\<forall>m. m mod w = 0 \<and> m < s \<longrightarrow> m \<le> s - k)"
    by (intro conjI r k_def l n refl c previous_multiple(1-3) [OF assms(2) pos k_def] greatest)
  show "\<exists>ed' r k. dedent ed lineno = Inr (ed', r)
             \<and> k = (if s mod w = 0 then w else s mod w)
             \<and> lines ed' = (lines ed)[nat lineno - 1 :=
                  drop (nat k) (lines ed ! (nat lineno - 1))]
             \<and> int (length (lines ed' ! (nat lineno - 1)))
                  = int (length (lines ed ! (nat lineno - 1))) - k
             \<and> r = s - k
             \<and> r = spacecount (get_line (lines ed') lineno)
             \<and> 0 \<le> r \<and> r mod w = 0 \<and> r < s
             \<and> (\<forall>m. m mod w = 0 \<and> m < s \<longrightarrow> m \<le> r)"
    by (rule exI [of _ ed'], rule exI [of _ "s - k"], rule exI [of _ k], rule P)
qed

theorem dedent_previous_multiple_witness:
  "dedent (new_editor [''x''] (1, 0) 4) 1 = Inr (new_editor [''x''] (1, 0) 4, 0)
   \<and> (\<exists>ed'. dedent (new_editor [''     x''] (1, 0) 4) 1 = Inr (ed', 4) \<and> lines ed' = [''    x''])
   \<and> (\<exists>ed'. dedent (new_editor [''    x''] (1, 0) 4) 1 = Inr (ed', 0) \<and> lines ed' = [''x''])
   \<and> (\<exists>ed'. dedent (new_editor [''       x''] (1, 0) 4) 1 = Inr (ed', 4) \<and> lines ed' = [''    x''])"
proof -
  have s: "spacecount (get_line [''x''] 1) = 0" "spacecount (get_line [''     x''] 1) = 5"
    "spacecount (get_line [''    x''] 1) = 4" "spacecount (get_line [''       x''] 1) = 7"
    by (simp_all add: get_line_valid spacecount_takeWhile indent_char_def char_isspace_def
        whitespace_chars_def newline_def)
  have a: "dedent (new_editor [''x''] (1, 0) 4) 1 = Inr (new_editor [''x''] (1, 0) 4, 0)"
    using dedent_previous_multiple [of 4 "new_editor [''x''] (1, 0) 4" 1 0]
    by (simp add: new_editor_def s)
  have b: "\<exists>ed'. dedent (new_editor [''     x''] (1, 0) 4) 1 = Inr (ed', 4) \<and> lines ed' = [''    x'']"
    using dedent_previous_multiple [of 4 "new_editor [''     x''] (1, 0) 4" 1 5]
    by (auto simp: new_editor_def s)
  have c: "\<exists>ed'. dedent (new_editor [''    x''] (1, 0) 4) 1 = Inr (ed', 0) \<and> lines ed' = [''x'']"
    using dedent_previous_multiple [of 4 "new_editor [''    x''] (1, 0) 4" 1 4]
    by (auto simp: new_editor_def s eval_nat_numeral)
  have d: "\<exists>ed'. dedent (new_editor [''       x''] (1, 0) 4) 1 = Inr (ed', 4) \<and> lines ed' = [''    x'']"
    using dedent_previous_multiple [of 4 "new_editor [''       x''] (1, 0) 4" 1 7]
    by (auto simp: new_editor_def s eval_nat_numeral)
  from a b c d show ?thesis by blast
qed

lemma make_index_below: "lineno < 1 \<Longrightarrow> make_index ls lineno c = (1, 0)"
  by (simp add: make_index_def)

lemma tk_delete_empty_range: "tk_delete w p p = w"
  by (simp add: tk_delete_def pos_less_def Let_def)

lemma spacecount_Nil: "spacecount [] = 0"
  by (simp add: spacecount_def)

lemma dedent_below:
  assumes "lineno < 1" and "settings_indent ed \<noteq> 0"
  shows "\<exists>ed' r. dedent ed lineno = Inr (ed', r) \<and> lines ed' = lines ed
           \<and> (r = 0 \<or> r = spacecount (get_line (lines ed) lineno)
                  - (if spacecount (get_line (lines ed) lineno) mod settings_indent ed = 0
                     then settings_indent ed
                     else spacecount (get_line (lines ed) lineno) mod settings_indent ed))"
  using assms(2) unfolding dedent_unfold make_index_below [OF assms(1)] tk_delete_empty_range
  by simp

lemma dedent_beyond:
  assumes "int (length (lines ed)) < lineno"
  shows "dedent ed lineno = Inr (ed, 0)"
  unfolding dedent_unfold get_line_beyond [OF assms] spacecount_Nil by simp

text \<open>
  C5. For every line number and every indent width \<open>w > 0\<close>, \<open>dedent\<close> deletes no more
  characters than the line has leading whitespace, and of that line only; neither
  \<open>indent\<close> nor \<open>dedent\<close> returns a negative number.
\<close>

theorem dedent_indent_bounds:
  assumes "0 < settings_indent ed"
  shows "(\<exists>ed' r k. dedent ed lineno = Inr (ed', r) \<and> 0 \<le> r
            \<and> 0 \<le> k \<and> k \<le> spacecount (get_line (lines ed) lineno)
            \<and> (1 \<le> lineno \<and> lineno \<le> int (length (lines ed)) \<longrightarrow>
                  lines ed' = (lines ed)[nat lineno - 1 :=
                                drop (nat k) (lines ed ! (nat lineno - 1))]
                  \<and> int (length (lines ed' ! (nat lineno - 1)))
                      = int (length (lines ed ! (nat lineno - 1))) - k)
            \<and> (\<not> (1 \<le> lineno \<and> lineno \<le> int (length (lines ed))) \<longrightarrow>
                  lines ed' = lines ed))
       \<and> (\<exists>ed' r. indent ed lineno = Inr (ed', r) \<and> 0 \<le> r)"
proof (rule conjI)
  let ?w = "settings_indent ed"
  let ?s = "spacecount (get_line (lines ed) lineno)"
  let ?k = "if ?s mod ?w = 0 then ?w else ?s mod ?w"
  have s0: "0 \<le> ?s" by (rule spacecount_nonneg)
  have "0 \<le> ?s mod ?w" "?s mod ?w < ?w" using assms by simp_all
  then have "0 \<le> ?s + (?w - ?s mod ?w)" using s0 by linarith
  then show "\<exists>ed' r. indent ed lineno = Inr (ed', r) \<and> 0 \<le> r"
    using assms unfolding indent_unfold by simp
  let ?goal = "\<exists>ed' r k. dedent ed lineno = Inr (ed', r) \<and> 0 \<le> r
            \<and> 0 \<le> k \<and> k \<le> ?s
            \<and> (1 \<le> lineno \<and> lineno \<le> int (length (lines ed)) \<longrightarrow>
                  lines ed' = (lines ed)[nat lineno - 1 :=
                                drop (nat k) (lines ed ! (nat lineno - 1))]
                  \<and> int (length (lines ed' ! (nat lineno - 1)))
                      = int (length (lines ed ! (nat lineno - 1))) - k)
            \<and> (\<not> (1 \<le> lineno \<and> lineno \<le> int (length (lines ed))) \<longrightarrow>
                  lines ed' = lines ed)"
  consider (zero) "?s = 0" | (below) "0 < ?s" "lineno < 1"
    | (beyond) "int (length (lines ed)) < lineno"
    | (valid) "0 < ?s" "1 \<le> lineno" "lineno \<le> int (length (lines ed))"
    using s0 by linarith
  then show ?goal
  proof cases
    case zero
    then have "dedent ed lineno = Inr (ed, 0)" by (simp add: dedent_unfold)
    then show ?thesis
      using zero by (intro exI [of _ ed] exI [of _ 0]) simp
  next
    case below
    have k: "?k \<le> ?s" by (rule howmany2del_bounds(3) [OF assms below(1)])
    have ne: "?w \<noteq> 0" using assms by simp
    from dedent_below [OF below(2) ne] obtain ed' r where
      d: "dedent ed lineno = Inr (ed', r)" "lines ed' = lines ed" "r = 0 \<or> r = ?s - ?k"
      by blast
    from d(3) k have "0 \<le> r" by auto
    then show ?thesis
      by (rule_tac x = ed' in exI, rule_tac x = r in exI, rule_tac x = 0 in exI)
         (use d(1,2) below(2) s0 in simp)
  next
    case beyond
    then show ?thesis
      using dedent_beyond [OF beyond] s0 by (intro exI [of _ ed] exI [of _ 0]) simp
  next
    case valid
    let ?L = "lines ed ! (nat lineno - 1)"
    have sL: "?s = spacecount ?L"
      using valid(2,3) by (simp add: get_line_valid spacecount_append_newline)
    have posL: "0 < spacecount ?L" using valid(1) unfolding sL .
    define k where "k = (if spacecount ?L mod ?w = 0 then ?w else spacecount ?L mod ?w)"
    from dedent_valid_line [OF assms valid(2,3) posL] obtain ed' where
      d: "dedent ed lineno = Inr (ed', spacecount ?L - k)" and
      l: "lines ed' = (lines ed)[nat lineno - 1 := drop (nat k) ?L]"
      unfolding k_def by blast
    have k: "0 < k" "k \<le> spacecount ?L"
      using howmany2del_bounds(1,3) [OF assms posL] unfolding k_def by blast+
    have i: "nat lineno - 1 < length (lines ed)" using valid(2,3) by linarith
    have "spacecount ?L \<le> int (length ?L)" by (rule spacecount_le_length)
    with k have "nat k \<le> length ?L" by linarith
    with k(1) have n: "int (length (lines ed' ! (nat lineno - 1))) = int (length ?L) - k"
      unfolding l using i by simp
    have "0 \<le> spacecount ?L - k" "0 \<le> k" "k \<le> ?s"
      using k unfolding sL by simp_all
    then show ?thesis
      by (rule_tac x = ed' in exI, rule_tac x = "spacecount ?L - k" in exI, rule_tac x = k in exI)
         (use d l n i valid(2,3) in simp)
  qed
qed

theorem dedent_indent_bounds_witness:
  "(\<exists>ed' r k. dedent (new_editor [''     x''] (1, 0) 4) 1 = Inr (ed', r) \<and> 0 \<le> r
      \<and> 0 \<le> k \<and> k \<le> 5 \<and> lines ed' = [drop (nat k) ''     x''])
   \<and> (\<exists>ed' r. indent (new_editor [''     x''] (1, 0) 4) 1 = Inr (ed', r) \<and> 0 \<le> r)"
proof -
  have s: "spacecount (get_line [''     x''] 1) = 5"
    by (simp add: get_line_valid spacecount_takeWhile indent_char_def char_isspace_def
        whitespace_chars_def newline_def)
  have w: "0 < settings_indent (new_editor [''     x''] (1, 0) 4)"
    by (simp add: new_editor_def)
  have l: "lines (new_editor [''     x''] (1, 0) 4) = [''     x'']"
    by (simp add: new_editor_def)
  show ?thesis
    using dedent_indent_bounds [OF w, of 1] unfolding l s by simp blast
qed

section \<open>indent followed by dedent\<close>

lemma settings_tk_insert [simp]: "settings_indent (tk_insert w p chars) = settings_indent w"
  by (simp add: tk_insert_def Let_def record_edit_def)

lemma settings_tk_delete [simp]: "settings_indent (tk_delete w p q) = settings_indent w"
  by (simp add: tk_delete_def Let_def record_edit_def)

lemma indent_settings:
  "indent ed lineno = Inr (ed', r) \<Longrightarrow> settings_indent ed' = settings_indent ed"
  by (auto simp: indent_unfold split: if_splits)

lemma dedent_settings:
  "dedent ed lineno = Inr (ed', r) \<Longrightarrow> settings_indent ed' = settings_indent ed"
  by (auto simp: dedent_unfold split: if_splits)

text \<open>
  C4. When the leading-space count \<open>s\<close> of a line is not a multiple of the indent width
  \<open>w\<close>, \<open>indent\<close> followed by \<open>dedent\<close> on that line does not bring the count back:
  \<open>indent\<close> puts \<open>w - s mod w\<close> spaces in front of the line and returns its new count,
  the next multiple of \<open>w\<close>; \<open>dedent\<close> then takes \<open>w\<close> characters off the front of the
  indented line and returns its new count, \<open>s - s mod w\<close>, which is less than \<open>s\<close>.
  With \<open>w = 4\<close> and \<open>s = 3\<close> the counts are 4 and then 0.
\<close>

theorem indent_dedent_not_inverse:
  assumes "w = settings_indent ed" and "0 < w"
    and "1 \<le> lineno" and "lineno \<le> int (length (lines ed))"
    and "s = spacecount (get_line (lines ed) lineno)"
    and "s mod w \<noteq> 0"
  shows "\<exists>ed1 r1 ed2 r2. indent ed lineno = Inr (ed1, r1) \<and> dedent ed1 lineno = Inr (ed2, r2)
           \<and> lines ed1 = (lines ed)[nat lineno - 1 :=
                replicate (nat (w - s mod w)) space @ lines ed ! (nat lineno - 1)]
           \<and> r1 = s + (w - s mod w)
           \<and> r1 = spacecount (get_line (lines ed1) lineno)
           \<and> r1 mod w = 0 \<and> s < r1
           \<and> lines ed2 = (lines ed1)[nat lineno - 1 :=
                drop (nat w) (lines ed1 ! (nat lineno - 1))]
           \<and> r2 = s - s mod w
           \<and> r2 = spacecount (get_line (lines ed2) lineno)
           \<and> r2 < s"
proof -
  let ?i = "nat lineno - 1"
  let ?L = "lines ed ! ?i"
  define a where "a = w - s mod w"
  have sL: "spacecount ?L = s"
    unfolding assms(5) using assms(3,4) by (simp add: get_line_valid spacecount_append_newline)
  have w0: "settings_indent ed \<noteq> 0" using assms(1,2) by simp
  have m: "0 \<le> s mod w" "s mod w < w" using assms(2) by simp_all
  with assms(6) have mpos: "0 < s mod w" by linarith
  have apos: "0 < a" using m unfolding a_def by simp
  from indent_valid_line [OF w0 assms(3,4)] obtain ed1 where
    i1: "indent ed lineno = Inr (ed1, s + a)" and
    l1: "lines ed1 = (lines ed)[?i := replicate (nat a) space @ ?L]"
    unfolding sL assms(1) [symmetric] a_def by blast
  have i: "?i < length (lines ed)" using assms(3,4) by linarith
  have nth1: "lines ed1 ! ?i = replicate (nat a) space @ ?L"
    unfolding l1 using i by simp
  have len1: "lineno \<le> int (length (lines ed1))"
    unfolding l1 using assms(4) by simp
  have s1: "spacecount (lines ed1 ! ?i) = s + a"
    unfolding nth1 spacecount_spaces sL using apos by simp
  have w1: "settings_indent ed1 = w"
    using indent_settings [OF i1] assms(1) by simp
  have wpos1: "0 < settings_indent ed1" unfolding w1 by (rule assms(2))
  have s0: "0 \<le> s" unfolding sL [symmetric] by (rule spacecount_nonneg)
  have pos1: "0 < spacecount (lines ed1 ! ?i)" unfolding s1 using s0 apos by simp
  have mod1: "(s + a) mod w = 0" unfolding a_def by (rule next_multiple_mod)
  from dedent_valid_line [OF wpos1 assms(3) len1 pos1] obtain ed2 where
    d2: "dedent ed1 lineno = Inr (ed2, s + a - w)" and
    l2: "lines ed2 = (lines ed1)[?i := drop (nat w) (lines ed1 ! ?i)]"
    unfolding s1 w1 mod1 by auto
  have i1': "?i < length (lines ed1)" unfolding l1 using i by simp
  have nth2: "lines ed2 ! ?i = drop (nat w) (lines ed1 ! ?i)"
    unfolding l2 using i1' by simp
  have len2: "lineno \<le> int (length (lines ed2))"
    unfolding l2 using len1 by simp
  have g2: "get_line (lines ed2) lineno = lines ed2 ! ?i @ [newline]"
    using assms(3) len2 by (simp add: get_line_valid)
  have "s mod w \<le> s" using s0 assms(2) by (simp add: zmod_le_nonneg_dividend)
  then have "w \<le> s + a" unfolding a_def by simp
  then have "spacecount (drop (nat w) (lines ed1 ! ?i)) = spacecount (lines ed1 ! ?i) - w"
    using assms(2) unfolding s1 [symmetric] by (intro spacecount_drop) simp_all
  then have c2: "s - s mod w = spacecount (get_line (lines ed2) lineno)"
    unfolding g2 nth2 spacecount_append_newline s1 a_def by simp
  have r2: "s + a - w = s - s mod w" unfolding a_def by simp
  have lt: "s - s mod w < s" using mpos by simp
  have g1: "get_line (lines ed1) lineno = lines ed1 ! ?i @ [newline]"
    using assms(3) len1 by (simp add: get_line_valid)
  have c1: "s + a = spacecount (get_line (lines ed1) lineno)"
    unfolding g1 spacecount_append_newline s1 ..
  have gt: "s < s + a" using apos by simp
  have d2': "dedent ed1 lineno = Inr (ed2, s - s mod w)"
    using d2 unfolding r2 .
  have P: "indent ed lineno = Inr (ed1, s + a) \<and> dedent ed1 lineno = Inr (ed2, s - s mod w)
           \<and> lines ed1 = (lines ed)[nat lineno - 1 :=
                replicate (nat a) space @ lines ed ! (nat lineno - 1)]
           \<and> s + a = s + a
           \<and> s + a = spacecount (get_line (lines ed1) lineno)
           \<and> (s + a) mod w = 0 \<and> s < s + a
           \<and> lines ed2 = (lines ed1)[nat lineno - 1 :=
                drop (nat w) (lines ed1 ! (nat lineno - 1))]
           \<and> s - s mod w = s - s mod w
           \<and> s - s mod w = spacecount (get_line (lines ed2) lineno)
           \<and> s - s mod w < s"
    by (intro conjI i1 d2' l1 refl c1 mod1 gt l2 c2 lt)
  show ?thesis
    using P unfolding a_def
    by (rule_tac x = ed1 in exI, rule_tac x = "s + (w - s mod w)" in exI,
        rule_tac x = ed2 in exI, rule_tac x = "s - s mod w" in exI)
qed

theorem indent_dedent_not_inverse_witness:
  "\<exists>ed1 ed2. indent (new_editor [''   x''] (1, 0) 4) 1 = Inr (ed1, 4)
      \<and> lines ed1 = [''    x''] \<and> spacecount (get_line (lines ed1) 1) = 4
      \<and> dedent ed1 1 = Inr (ed2, 0)
      \<and> lines ed2 = [''x''] \<and> spacecount (get_line (lines ed2) 1) = 0
      \<and> spacecount (get_line [''   x''] 1) = 3"
proof -
  have s: "spacecount (get_line [''   x''] 1) = 3"
    by (simp add: get_line_valid spacecount_takeWhile indent_char_def char_isspace_def
        whitespace_chars_def newline_def)
  have "\<exists>ed1 r1 ed2 r2. indent (new_editor [''   x''] (1, 0) 4) 1 = Inr (ed1, r1)
           \<and> dedent ed1 1 = Inr (ed2, r2)
           \<and> lines ed1 = (lines (new_editor [''   x''] (1, 0) 4))[nat 1 - 1 :=
                replicate (nat (4 - 3 mod 4)) space @ lines (new_editor [''   x''] (1, 0) 4) ! (nat 1 - 1)]
           \<and> r1 = 3 + (4 - 3 mod 4)
           \<and> r1 = spacecount (get_line (lines ed1) 1)
           \<and> r1 mod 4 = 0 \<and> 3 < r1
           \<and> lines ed2 = (lines ed1)[nat 1 - 1 := drop (nat 4) (lines ed1 ! (nat 1 - 1))]
           \<and> r2 = 3 - 3 mod 4
           \<and> r2 = spacecount (get_line (lines ed2) 1)
           \<and> r2 < 3"
    by (rule indent_dedent_not_inverse [of 4 "new_editor [''   x''] (1, 0) 4" 1 3])
       (simp_all add: new_editor_def s)
  then obtain ed1 r1 ed2 r2 where
    i: "indent (new_editor [''   x''] (1, 0) 4) 1 = Inr (ed1, r1)" and
    d: "dedent ed1 1 = Inr (ed2, r2)" and
    l1: "lines ed1 = (lines (new_editor [''   x''] (1, 0) 4))[nat 1 - 1 :=
           replicate (nat (4 - 3 mod 4)) space @ lines (new_editor [''   x''] (1, 0) 4) ! (nat 1 - 1)]" and
    r1: "r1 = 3 + (4 - 3 mod 4)" and c1: "r1 = spacecount (get_line (lines ed1) 1)" and
    l2: "lines ed2 = (lines ed1)[nat 1 - 1 := drop (nat 4) (lines ed1 ! (nat 1 - 1))]" and
    r2: "r2 = 3 - 3 mod 4" and c2: "r2 = spacecount (get_line (lines ed2) 1)"
    by blast
  have e1: "lines ed1 = [''    x'']"
    unfolding l1 by (simp add: new_editor_def space_def eval_nat_numeral)
  have e2: "lines ed2 = [''x'']"
    unfolding l2 e1 by (simp add: eval_nat_numeral)
  have v1: "r1 = 4" and v2: "r2 = 0" unfolding r1 r2 by simp_all
  have "indent (new_editor [''   x''] (1, 0) 4) 1 = Inr (ed1, 4)
      \<and> lines ed1 = [''    x''] \<and> spacecount (get_line (lines ed1) 1) = 4
      \<and> dedent ed1 1 = Inr (ed2, 0)
      \<and> lines ed2 = [''x''] \<and> spacecount (get_line (lines ed2) 1) = 0
      \<and> spacecount (get_line [''   x''] 1) = 3"
    using i d c1 c2 unfolding v1 v2
    by (intro conjI e1 e2 s) simp_all
  then show ?thesis by blast
qed

section \<open>Automatic indentation\<close>

lemma count_list_spaces: "count_list (replicate k space) newline = 0"
  by (induction k) (simp_all add: space_def newline_def)

lemma insert_mark_tk_insert_spaces:
  assumes "insert_mark w = (l, c)" and "l \<le> length (lines w)"
  shows "insert_mark (tk_insert w (l, c0) (replicate k space))
           = (if c0 \<le> c then (l, c + k) else (l, c))"
proof (cases "k = 0")
  case True
  then show ?thesis using assms by (simp add: tk_insert_def)
next
  case False
  then show ?thesis using assms
    by (simp add: tk_insert_def Let_def record_edit_def shift_insert_def pos_less_def
        count_list_spaces)
qed

lemma char_isspace_newline: "char_isspace newline"
  by (simp add: char_isspace_def whitespace_chars_def newline_def)

lemma rstrip_append_newline: "rstrip (s @ [newline]) = rstrip s"
  by (simp add: rstrip_def char_isspace_newline)

lemma prevline_valid:
  assumes "2 \<le> n" and "n \<le> length ls"
  shows "tk_get ls (back_lines ls (make_index ls (int n) 0) 1) (make_index ls (int n) 0)
           = ls ! (n - 2) @ [newline]"
proof -
  from assms(1) obtain m where n: "n = Suc (Suc m)"
    by (metis add_2_eq_Suc le_Suc_ex)
  have "make_index ls (int n) 0 = (n, 0)"
    using assms by (simp add: make_index_def)
  moreover have "back_lines ls (n, 0) 1 = (Suc m, 0)"
    by (simp add: back_lines_def Let_def n)
  ultimately show ?thesis
    using assms(2) by (simp add: tk_get_def line_at_def n)
qed

lemma indent_valid_line_state:
  assumes "settings_indent ed \<noteq> 0" and "1 \<le> n" and "n \<le> length (lines ed)"
  shows "indent ed (int n)
           = Inr (do_cursor_move (tk_insert ed (n, 0)
                    (replicate (nat (settings_indent ed
                       - spacecount (lines ed ! (n - 1)) mod settings_indent ed)) space)),
                  spacecount (lines ed ! (n - 1))
                    + (settings_indent ed - spacecount (lines ed ! (n - 1)) mod settings_indent ed))"
proof -
  have g: "get_line (lines ed) (int n) = lines ed ! (n - 1) @ [newline]"
    using assms get_line_valid [of "int n" "lines ed"] by simp
  have i: "make_index (lines ed) (int n) 0 = (n, 0)"
    using assms by (simp add: make_index_def)
  show ?thesis
    using assms(1) unfolding indent_unfold g i spacecount_append_newline by simp
qed

text \<open>
  What \<open>_autoindent\<close> does right after Enter, when the cursor is at the start of line
  \<open>n\<close>: the number of spaces it puts in front of that line.
\<close>

lemma autoindent_after_newline:
  assumes "0 < settings_indent ed" and "insert_mark ed = (n, 0)"
    and "2 \<le> n" and "n \<le> length (lines ed)"
  shows "\<exists>ed'. autoindent ed = Inr ed'
           \<and> lines ed' = (lines ed)[n - 1 :=
                replicate
                  (nat (if endswith (rstrip (lines ed ! (n - 2))) [CHR '':'', CHR ''('', CHR ''['', CHR ''{'']
                        then settings_indent ed
                               - spacecount (lines ed ! (n - 1)) mod settings_indent ed
                        else 0)
                   + nat (spacecount (lines ed ! (n - 2)))) space
                @ lines ed ! (n - 1)]"
proof -
  let ?ls = "lines ed"
  let ?w = "settings_indent ed"
  let ?prev = "?ls ! (n - 2)"
  let ?cur = "?ls ! (n - 1)"
  let ?k = "nat (?w - spacecount ?cur mod ?w)"
  let ?j = "nat (spacecount ?prev)"
  let ?block = "endswith (rstrip ?prev) [CHR '':'', CHR ''('', CHR ''['', CHR ''{'']"
  have n1: "1 \<le> n" using assms(3) by simp
  have w0: "?w \<noteq> 0" using assms(1) by simp
  have p: "tk_get ?ls (back_lines ?ls (make_index ?ls (int n) 0) 1) (make_index ?ls (int n) 0)
             = ?prev @ [newline]"
    by (rule prevline_valid [OF assms(3,4)])
  have ii: "index_insert ed = (n, 0)" by (simp add: index_insert_def assms(2))
  show ?thesis
  proof (cases ?block)
    case True
    define ed1 where "ed1 = do_cursor_move (tk_insert ed (n, 0) (replicate ?k space))"
    have i1: "map_sum id fst (indent ed (int n)) = Inr ed1"
      unfolding indent_valid_line_state [OF w0 n1 assms(4)] ed1_def by simp
    have l1: "lines ed1 = ?ls[n - 1 := replicate ?k space @ ?cur]"
      unfolding ed1_def lines_do_cursor_move
      using lines_tk_insert_spaces [of n ed 0 ?k] n1 assms(4) by simp
    have m1: "index_insert ed1 = (n, ?k)"
      unfolding ed1_def index_insert_def insert_mark_do_cursor_move
      using insert_mark_tk_insert_spaces [OF assms(2,4), of 0 ?k] by simp
    have len1: "n \<le> length (lines ed1)" unfolding l1 using assms(4) by simp
    have nth1: "lines ed1 ! (n - 1) = replicate ?k space @ ?cur"
      unfolding l1 using n1 assms(4) by simp
    have "lines (tk_insert ed1 (n, ?k) (replicate ?j space))
            = (lines ed1)[n - 1 := take ?k (lines ed1 ! (n - 1)) @ replicate ?j space
                                     @ drop ?k (lines ed1 ! (n - 1))]"
      by (rule lines_tk_insert_spaces [OF n1 len1])
    also have "\<dots> = ?ls[n - 1 := replicate (?k + ?j) space @ ?cur]"
      by (simp only: nth1) (simp add: l1 replicate_add)
    finally have l2: "lines (tk_insert ed1 (n, ?k) (replicate ?j space))
            = ?ls[n - 1 := replicate (?k + ?j) space @ ?cur]" .
    have "autoindent ed = Inr (tk_insert ed1 (n, ?k) (replicate ?j space))"
      unfolding autoindent_def ii Let_def fst_conv p rstrip_append_newline
        spacecount_append_newline
      using True i1 m1 by simp
    with l2 True show ?thesis by simp
  next
    case False
    have l2: "lines (tk_insert ed (n, 0) (replicate ?j space))
            = ?ls[n - 1 := replicate ?j space @ ?cur]"
      using lines_tk_insert_spaces [OF n1 assms(4), of 0 ?j] by simp
    have "autoindent ed = Inr (tk_insert ed (n, 0) (replicate ?j space))"
      unfolding autoindent_def ii Let_def fst_conv p rstrip_append_newline
        spacecount_append_newline
      using False ii by simp
    with l2 False show ?thesis by simp
  qed
qed

text \<open>
  C3, as amended. Right after Enter the cursor is at the start of the new line \<open>n\<close>.
  \<open>_autoindent\<close> looks at the line above: when that line, without its trailing
  whitespace, ends with one of \<open>: ( [ {\<close>, it performs one \<open>indent\<close> on the new line;
  then, in both cases, it inserts at the cursor as many spaces as the line above has
  leading whitespace characters. With indent width 4 and an empty new line, the line
  above \<open>"    if x:"\<close> leaves the new line with 8 leading spaces (the 4 of one indent
  level and the 4 copied), and the line above \<open>"    y = 1"\<close> leaves it with exactly 4.
\<close>

theorem autoindent_indents_then_copies:
  assumes "w = settings_indent ed" and "0 < w"
    and "insert_mark ed = (n, 0)" and "2 \<le> n" and "n \<le> length (lines ed)"
    and "prev = lines ed ! (n - 2)" and "cur = lines ed ! (n - 1)"
    and "extra = (if endswith (rstrip prev) [CHR '':'', CHR ''('', CHR ''['', CHR ''{'']
                  then w - spacecount cur mod w else 0)"
  shows "\<exists>ed'. autoindent ed = Inr ed'
           \<and> 0 \<le> extra
           \<and> lines ed' = (lines ed)[n - 1 :=
                replicate (nat (extra + spacecount prev)) space @ cur]
           \<and> spacecount (get_line (lines ed') (int n)) = extra + spacecount prev + spacecount cur"
proof -
  let ?w = "settings_indent ed"
  let ?prev = "lines ed ! (n - 2)"
  let ?cur = "lines ed ! (n - 1)"
  let ?extra = "if endswith (rstrip ?prev) [CHR '':'', CHR ''('', CHR ''['', CHR ''{'']
                then ?w - spacecount ?cur mod ?w else 0"
  have wpos: "0 < ?w" using assms(1,2) by simp
  then have m: "spacecount ?cur mod ?w < ?w" by simp
  have e0: "0 \<le> ?extra" using m by simp
  have p0: "0 \<le> spacecount ?prev" by (rule spacecount_nonneg)
  have e: "nat ?extra + nat (spacecount ?prev) = nat (?extra + spacecount ?prev)"
    using e0 p0 by (simp only: nat_add_distrib)
  from autoindent_after_newline [OF wpos assms(3,4,5)] obtain ed' where
    a: "autoindent ed = Inr ed'" and
    l: "lines ed' = (lines ed)[n - 1 := replicate (nat (?extra + spacecount ?prev)) space @ ?cur]"
    unfolding e by blast
  have n1: "1 \<le> int n" "int n \<le> int (length (lines ed'))"
    using assms(4,5) unfolding l by simp_all
  have i: "n - 1 < length (lines ed)" using assms(4,5) by simp
  have g: "get_line (lines ed') (int n) = lines ed' ! (n - 1) @ [newline]"
    using get_line_valid [OF n1] by (simp add: nat_diff_distrib)
  have nth: "lines ed' ! (n - 1) = replicate (nat (?extra + spacecount ?prev)) space @ ?cur"
    unfolding l using i by simp
  have "spacecount (get_line (lines ed') (int n))
          = int (nat (?extra + spacecount ?prev)) + spacecount ?cur"
    unfolding g nth append_assoc spacecount_spaces spacecount_append_newline ..
  then have c: "spacecount (get_line (lines ed') (int n))
                  = ?extra + spacecount ?prev + spacecount ?cur"
    using e0 p0 by simp
  show ?thesis
    unfolding assms(8) assms(6) assms(7) assms(1)
    by (rule exI [of _ ed']) (intro conjI a e0 l c)
qed

lemma spacecount_example_lines:
  "spacecount ''    if x:'' = 4" "spacecount ''    y = 1'' = 4" "spacecount '''' = 0"
  by (simp_all add: spacecount_takeWhile indent_char_def char_isspace_def whitespace_chars_def
      newline_def)

lemma block_opening_examples:
  "endswith (rstrip ''    if x:'') [CHR '':'', CHR ''('', CHR ''['', CHR ''{'']"
  "\<not> endswith (rstrip ''    y = 1'') [CHR '':'', CHR ''('', CHR ''['', CHR ''{'']"
  by (simp_all add: endswith_def rstrip_def char_isspace_def whitespace_chars_def)

theorem autoindent_indents_then_copies_witness:
  "(\<exists>ed'. autoindent (new_editor [''    if x:'', ''''] (2, 0) 4) = Inr ed'
      \<and> lines ed' = [''    if x:'', ''        '']
      \<and> spacecount (get_line (lines ed') 2) = 8)
   \<and> (\<exists>ed'. autoindent (new_editor [''    y = 1'', ''''] (2, 0) 4) = Inr ed'
      \<and> lines ed' = [''    y = 1'', ''    '']
      \<and> spacecount (get_line (lines ed') 2) = 4)"
proof -
  have a: "\<exists>ed'. autoindent (new_editor [''    if x:'', ''''] (2, 0) 4) = Inr ed'
      \<and> lines ed' = [''    if x:'', ''        '']
      \<and> spacecount (get_line (lines ed') 2) = 8"
    using autoindent_indents_then_copies
      [of 4 "new_editor [''    if x:'', ''''] (2, 0) 4" 2 "''    if x:''" "''''" 4]
    by (simp add: new_editor_def spacecount_example_lines block_opening_examples space_def
        eval_nat_numeral)
  have b: "\<exists>ed'. autoindent (new_editor [''    y = 1'', ''''] (2, 0) 4) = Inr ed'
      \<and> lines ed' = [''    y = 1'', ''    '']
      \<and> spacecount (get_line (lines ed') 2) = 4"
    using autoindent_indents_then_copies
      [of 4 "new_editor [''    y = 1'', ''''] (2, 0) 4" 2 "''    y = 1''" "''''" 0]
    by (simp add: new_editor_def spacecount_example_lines block_opening_examples space_def
        eval_nat_numeral)
  from a b show ?thesis by (rule conjI)
qed

text \<open>
  C3, as stated, fails: with indent width 4 and the line above \<open>"    if x:"\<close>, the new
  line is left with 8 leading spaces, not 4.
\<close>

theorem autoindent_block_counterexample:
  "\<not> isl (autoindent (new_editor [''    if x:'', ''''] (2, 0) 4))
   \<and> lines (projr (autoindent (new_editor [''    if x:'', ''''] (2, 0) 4)))
       = [''    if x:'', ''        '']
   \<and> spacecount (get_line (lines (projr (autoindent (new_editor [''    if x:'', ''''] (2, 0) 4)))) 2)
       \<noteq> 4"
proof -
  have "\<exists>ed'. autoindent (new_editor [''    if x:'', ''''] (2, 0) 4) = Inr ed'
          \<and> lines ed' = [''    if x:'', ''        '']"
    using autoindent_after_newline [of "new_editor [''    if x:'', ''''] (2, 0) 4" 2]
    by (simp add: new_editor_def spacecount_example_lines block_opening_examples space_def
        eval_nat_numeral)
  then obtain ed' where a: "autoindent (new_editor [''    if x:'', ''''] (2, 0) 4) = Inr ed'"
    and l: "lines ed' = [''    if x:'', ''        '']"
    by blast
  have "spacecount (get_line [''    if x:'', ''        ''] 2) = 8"
    by (simp add: get_line_valid spacecount_takeWhile indent_char_def char_isspace_def
        whitespace_chars_def newline_def)
  then show ?thesis unfolding a by (simp add: l)
qed

section \<open>Notifications\<close>

lemma fold_logging:
  "fold (\<lambda>cb. cb v) (map (\<lambda>(i, f). logging i f) named) (log, e)
     = (log @ map (\<lambda>(i, f). (i, v)) named, fold (\<lambda>(i, f). f v) named e)"
  by (induction named arbitrary: log e) (auto simp: logging_def)

lemma run_callbacks_logging:
  assumes "world ed = (log, e)"
  shows "run_callbacks (map (\<lambda>(i, f). logging i f) named) ed
           = ed\<lparr>world := (log @ map (\<lambda>(i, f). (i, view ed)) named,
                            fold (\<lambda>(i, f). f (view ed)) named e)\<rparr>"
  unfolding run_callbacks_fold assms fold_logging ..

text \<open>
  C6. A cursor-move check compares the cursor position of the buffer with the cached
  one. When they differ, the cache is updated first and then every listener of
  \<open>on_cursor_move\<close> is called once, in registration order, each seeing a widget whose
  cached position is the cursor position; when they are equal nothing happens. After
  the check the cached position is the cursor position of the buffer.
\<close>

theorem do_cursor_move_notifies:
  assumes "on_cursor_move ed = map (\<lambda>(i, f). logging i f) named"
    and "world ed = (log, e)"
    and "v = view (ed\<lparr>cursorpos := index_insert ed\<rparr>)"
  shows "(index_insert ed \<noteq> cursorpos ed \<longrightarrow>
            do_cursor_move ed
              = ed\<lparr>cursorpos := index_insert ed,
                   world := (log @ map (\<lambda>(i, f). (i, v)) named, fold (\<lambda>(i, f). f v) named e)\<rparr>
            \<and> cursorpos v = insert_mark v)
       \<and> (index_insert ed = cursorpos ed \<longrightarrow> do_cursor_move ed = ed)
       \<and> cursorpos (do_cursor_move ed) = index_insert (do_cursor_move ed)"
proof (intro conjI impI)
  assume d: "index_insert ed \<noteq> cursorpos ed"
  let ?ed1 = "ed\<lparr>cursorpos := index_insert ed\<rparr>"
  have w1: "world ?ed1 = (log, e)" using assms(2) by simp
  have "do_cursor_move ed = run_callbacks (map (\<lambda>(i, f). logging i f) named) ?ed1"
    using d assms(1) by (simp add: do_cursor_move_def Let_def)
  also have "\<dots> = ?ed1\<lparr>world := (log @ map (\<lambda>(i, f). (i, v)) named,
                                     fold (\<lambda>(i, f). f v) named e)\<rparr>"
    unfolding run_callbacks_logging [OF w1] assms(3) ..
  finally show "do_cursor_move ed
              = ed\<lparr>cursorpos := index_insert ed,
                   world := (log @ map (\<lambda>(i, f). (i, v)) named, fold (\<lambda>(i, f). f v) named e)\<rparr>" .
  show "cursorpos v = insert_mark v"
    unfolding assms(3) by (simp add: view_def index_insert_def)
next
  assume "index_insert ed = cursorpos ed"
  then show "do_cursor_move ed = ed" by (simp add: do_cursor_move_def)
next
  show "cursorpos (do_cursor_move ed) = index_insert (do_cursor_move ed)"
    by (simp add: do_cursor_move_def Let_def run_callbacks_fold index_insert_def)
qed

theorem do_cursor_move_notifies_witness:
  "map fst (fst (world (do_cursor_move (watched_editor [''ab''] (1, 2) (1, 0) 4 [7, 8])))) = [7, 8]
   \<and> map (cursorpos \<circ> snd) (fst (world (do_cursor_move (watched_editor [''ab''] (1, 2) (1, 0) 4 [7, 8]))))
        = [(1, 2), (1, 2)]
   \<and> cursorpos (do_cursor_move (watched_editor [''ab''] (1, 2) (1, 0) 4 [7, 8])) = (1, 2)
   \<and> do_cursor_move (watched_editor [''ab''] (1, 2) (1, 2) 4 [7, 8])
        = watched_editor [''ab''] (1, 2) (1, 2) 4 [7, 8]"
proof -
  let ?ed = "watched_editor [''ab''] (1, 2) (1, 0) 4 [7, 8]"
  let ?ed' = "watched_editor [''ab''] (1, 2) (1, 2) 4 [7, 8]"
  let ?named = "map (\<lambda>i. (i, \<lambda>(v::widget) (e::unit). e)) [7::nat, 8]"
  have a: "on_cursor_move ?ed = map (\<lambda>(i, f). logging i f) ?named"
    "on_cursor_move ?ed' = map (\<lambda>(i, f). logging i f) ?named"
    by (simp_all add: watched_editor_def)
  have b: "world ?ed = ([], ())" "world ?ed' = ([], ())"
    by (simp_all add: watched_editor_def)
  have c: "index_insert ?ed \<noteq> cursorpos ?ed" "index_insert ?ed' = cursorpos ?ed'"
    "index_insert ?ed = (1, 2)"
    by (simp_all add: watched_editor_def index_insert_def)
  from do_cursor_move_notifies [OF a(1) b(1) refl] c(1)
  have "do_cursor_move ?ed
          = ?ed\<lparr>cursorpos := index_insert ?ed,
                 world := ([] @ map (\<lambda>(i, f). (i, view (?ed\<lparr>cursorpos := index_insert ?ed\<rparr>)))
                                  ?named,
                           fold (\<lambda>(i, f). f (view (?ed\<lparr>cursorpos := index_insert ?ed\<rparr>)))
                             ?named ())\<rparr>"
    by blast
  then have 1: "map fst (fst (world (do_cursor_move ?ed))) = [7, 8]"
    and 2: "map (cursorpos \<circ> snd) (fst (world (do_cursor_move ?ed))) = [(1, 2), (1, 2)]"
    and 3: "cursorpos (do_cursor_move ?ed) = (1, 2)"
    by (simp_all add: view_def index_insert_def watched_editor_def)
  from do_cursor_move_notifies [OF a(2) b(2) refl] c(2)
  have 4: "do_cursor_move ?ed' = ?ed'" by blast
  from 1 2 3 4 show ?thesis by (intro conjI)
qed

text \<open>
  C7. On a modification event the handler first clears the modified flag of the
  buffer (with its own binding taken away meanwhile and put back after), and then
  calls every listener of \<open>on_modified\<close> once, in registration order, without
  arguments; every listener sees the flag cleared, and it is still cleared afterwards
  with the handler bound, so that the next edit sets it again.
\<close>

theorem do_modified_resets_then_notifies:
  assumes "on_modified ed = map (\<lambda>(i, f). logging i f) named"
    and "world ed = (log, e)"
    and "v = view (ed\<lparr>modified := False, modified_bound := True\<rparr>)"
  shows "do_modified ed
           = ed\<lparr>modified := False, modified_bound := True,
                world := (log @ map (\<lambda>(i, f). (i, v)) named, fold (\<lambda>(i, f). f v) named e)\<rparr>
         \<and> \<not> modified v
         \<and> (\<forall>x \<in> set (drop (length log) (fst (world (do_modified ed)))). \<not> modified (snd x))
         \<and> \<not> modified (do_modified ed)
         \<and> modified_bound (do_modified ed)
         \<and> modified (tk_insert (do_modified ed) index (c # chars))"
proof -
  let ?ed3 = "ed\<lparr>modified := False, modified_bound := True\<rparr>"
  have w3: "world ?ed3 = (log, e)" using assms(2) by simp
  have "do_modified ed = run_callbacks (map (\<lambda>(i, f). logging i f) named) ?ed3"
    using assms(1) by (simp add: do_modified_def edit_modified_def Let_def)
  also have "\<dots> = ?ed3\<lparr>world := (log @ map (\<lambda>(i, f). (i, v)) named,
                                     fold (\<lambda>(i, f). f v) named e)\<rparr>"
    unfolding run_callbacks_logging [OF w3] assms(3) ..
  finally have a: "do_modified ed
           = ed\<lparr>modified := False, modified_bound := True,
                world := (log @ map (\<lambda>(i, f). (i, v)) named, fold (\<lambda>(i, f). f v) named e)\<rparr>" .
  have b: "\<not> modified v" unfolding assms(3) by (simp add: view_def)
  have c: "\<forall>x \<in> set (drop (length log) (fst (world (do_modified ed)))). \<not> modified (snd x)"
    unfolding a using b by auto
  have d: "\<not> modified (do_modified ed)" "modified_bound (do_modified ed)"
    unfolding a by simp_all
  have f: "modified (tk_insert (do_modified ed) index (c # chars))"
    by (simp add: tk_insert_def Let_def record_edit_def)
  from a b c d f show ?thesis by (intro conjI)
qed

theorem do_modified_resets_then_notifies_witness:
  "map fst (fst (world (do_modified (watched_editor [''ab''] (1, 2) (1, 2) 4 [7, 8])))) = [7, 8]
   \<and> map (modified \<circ> snd) (fst (world (do_modified (watched_editor [''ab''] (1, 2) (1, 2) 4 [7, 8]))))
        = [False, False]
   \<and> modified (watched_editor [''ab''] (1, 2) (1, 2) 4 [7, 8])
   \<and> \<not> modified (do_modified (watched_editor [''ab''] (1, 2) (1, 2) 4 [7, 8]))"
proof -
  let ?ed = "watched_editor [''ab''] (1, 2) (1, 2) 4 [7, 8]"
  let ?named = "map (\<lambda>i. (i, \<lambda>(v::widget) (e::unit). e)) [7::nat, 8]"
  have a: "on_modified ?ed = map (\<lambda>(i, f). logging i f) ?named"
    by (simp add: watched_editor_def)
  have b: "world ?ed = ([], ())"
    by (simp add: watched_editor_def)
  from do_modified_resets_then_notifies [OF a b refl]
  have "do_modified ?ed
          = ?ed\<lparr>modified := False, modified_bound := True,
                 world := ([] @ map (\<lambda>(i, f). (i, view (?ed\<lparr>modified := False, modified_bound := True\<rparr>)))
                                  ?named,
                           fold (\<lambda>(i, f). f (view (?ed\<lparr>modified := False, modified_bound := True\<rparr>)))
                             ?named ())\<rparr>"
    by blast
  then have 1: "map fst (fst (world (do_modified ?ed))) = [7, 8]"
    and 2: "map (modified \<circ> snd) (fst (world (do_modified ?ed))) = [False, False]"
    and 4: "\<not> modified (do_modified ?ed)"
    by (simp_all add: view_def watched_editor_def)
  have 3: "modified ?ed" by (simp add: watched_editor_def)
  from 1 2 3 4 show ?thesis by (intro conjI)
qed

section \<open>undo and redo\<close>

text \<open>
  C8. \<open>undo\<close> and \<open>redo\<close> hand over to the history of the buffer. When the history is
  empty in that direction the error of the toolkit is absorbed: nothing changes, no
  cursor-move check runs (a stale cached position stays stale, no listener is
  called), and \<open>None\<close> is returned, which lets the default handling go on. Otherwise
  the edit is performed, a cursor-move check runs on the result, and \<open>'break'\<close> is
  returned, which suppresses the default handling.
\<close>

theorem undo_redo_history:
  "(undo_stack ed = [] \<longrightarrow> edit_undo ed = Inl TclError \<and> undo ed = (ed, None))
   \<and> (undo_stack ed \<noteq> [] \<longrightarrow>
        (\<exists>ed1. edit_undo ed = Inr ed1
           \<and> lines ed1 = fst (hd (undo_stack ed)) \<and> insert_mark ed1 = snd (hd (undo_stack ed))
           \<and> undo_stack ed1 = tl (undo_stack ed)
           \<and> undo ed = (do_cursor_move ed1, Some ''break'')))
   \<and> (redo_stack ed = [] \<longrightarrow> edit_redo ed = Inl TclError \<and> redo ed = (ed, None))
   \<and> (redo_stack ed \<noteq> [] \<longrightarrow>
        (\<exists>ed1. edit_redo ed = Inr ed1
           \<and> lines ed1 = fst (hd (redo_stack ed)) \<and> insert_mark ed1 = snd (hd (redo_stack ed))
           \<and> redo_stack ed1 = tl (redo_stack ed)
           \<and> redo ed = (do_cursor_move ed1, Some ''break'')))"
proof (intro conjI impI)
  assume "undo_stack ed = []"
  then show "edit_undo ed = Inl TclError" "undo ed = (ed, None)"
    by (simp_all add: undo_def edit_undo_def)
next
  assume "undo_stack ed \<noteq> []"
  then obtain ls m rest where u: "undo_stack ed = (ls, m) # rest"
    by (cases "undo_stack ed") auto
  show "\<exists>ed1. edit_undo ed = Inr ed1
           \<and> lines ed1 = fst (hd (undo_stack ed)) \<and> insert_mark ed1 = snd (hd (undo_stack ed))
           \<and> undo_stack ed1 = tl (undo_stack ed)
           \<and> undo ed = (do_cursor_move ed1, Some ''break'')"
    by (simp add: undo_def edit_undo_def u)
next
  assume "redo_stack ed = []"
  then show "edit_redo ed = Inl TclError" "redo ed = (ed, None)"
    by (simp_all add: redo_def edit_redo_def)
next
  assume "redo_stack ed \<noteq> []"
  then obtain ls m rest where u: "redo_stack ed = (ls, m) # rest"
    by (cases "redo_stack ed") auto
  show "\<exists>ed1. edit_redo ed = Inr ed1
           \<and> lines ed1 = fst (hd (redo_stack ed)) \<and> insert_mark ed1 = snd (hd (redo_stack ed))
           \<and> redo_stack ed1 = tl (redo_stack ed)
           \<and> redo ed = (do_cursor_move ed1, Some ''break'')"
    by (simp add: redo_def edit_redo_def u)
qed

theorem undo_redo_history_witness:
  "undo (watched_editor [''ab''] (1, 2) (1, 0) 4 [7, 8])
     = (watched_editor [''ab''] (1, 2) (1, 0) 4 [7, 8], None)
   \<and> redo (watched_editor [''ab''] (1, 2) (1, 0) 4 [7, 8])
     = (watched_editor [''ab''] (1, 2) (1, 0) 4 [7, 8], None)
   \<and> snd (undo ((watched_editor [''ab''] (1, 2) (1, 2) 4 [7, 8])\<lparr>undo_stack := [([''a''], (1, 1))]\<rparr>))
       = Some ''break''
   \<and> lines (fst (undo ((watched_editor [''ab''] (1, 2) (1, 2) 4 [7, 8])\<lparr>undo_stack := [([''a''], (1, 1))]\<rparr>)))
       = [''a'']
   \<and> cursorpos (fst (undo ((watched_editor [''ab''] (1, 2) (1, 2) 4 [7, 8])\<lparr>undo_stack := [([''a''], (1, 1))]\<rparr>)))
       = (1, 1)
   \<and> map fst (fst (world (fst (undo ((watched_editor [''ab''] (1, 2) (1, 2) 4 [7, 8])\<lparr>undo_stack := [([''a''], (1, 1))]\<rparr>)))))
       = [7, 8]
   \<and> snd (redo ((watched_editor [''ab''] (1, 2) (1, 2) 4 [7, 8])\<lparr>redo_stack := [([''abc''], (1, 3))]\<rparr>))
       = Some ''break''
   \<and> lines (fst (redo ((watched_editor [''ab''] (1, 2) (1, 2) 4 [7, 8])\<lparr>redo_stack := [([''abc''], (1, 3))]\<rparr>)))
       = [''abc'']"
proof -
  let ?ed = "watched_editor [''ab''] (1, 2) (1, 0) 4 [7, 8]"
  let ?u = "(watched_editor [''ab''] (1, 2) (1, 2) 4 [7, 8])\<lparr>undo_stack := [([''a''], (1, 1))]\<rparr>"
  let ?r = "(watched_editor [''ab''] (1, 2) (1, 2) 4 [7, 8])\<lparr>redo_stack := [([''abc''], (1, 3))]\<rparr>"
  have e: "undo_stack ?ed = []" "redo_stack ?ed = []"
    by (simp_all add: watched_editor_def)
  have 1: "undo ?ed = (?ed, None)" and 2: "redo ?ed = (?ed, None)"
    using undo_redo_history [of ?ed] e by blast+
  have n: "undo_stack ?u \<noteq> []" "redo_stack ?r \<noteq> []" by simp_all
  from undo_redo_history [of ?u] n(1) obtain u1 where
    u: "edit_undo ?u = Inr u1" "lines u1 = fst (hd (undo_stack ?u))"
       "insert_mark u1 = snd (hd (undo_stack ?u))" "undo ?u = (do_cursor_move u1, Some ''break'')"
    by blast
  from undo_redo_history [of ?r] n(2) obtain r1 where
    r: "edit_redo ?r = Inr r1" "lines r1 = fst (hd (redo_stack ?r))"
       "redo ?r = (do_cursor_move r1, Some ''break'')"
    by blast
  have u1: "u1 = ?u\<lparr>lines := [''a''], insert_mark := (1, 1), modified := True,
                     undo_stack := [], redo_stack := [([''ab''], (1, 2))]\<rparr>"
    using u(1) by (simp add: edit_undo_def watched_editor_def)
  have 3: "snd (undo ?u) = Some ''break''" and 4: "lines (fst (undo ?u)) = [''a'']"
    unfolding u(4) using u(2) by simp_all
  have 5: "cursorpos (fst (undo ?u)) = (1, 1)"
    and 6: "map fst (fst (world (fst (undo ?u)))) = [7, 8]"
    unfolding u(4) u1
    by (simp_all add: do_cursor_move_def index_insert_def watched_editor_def Let_def
        logging_def)
  have 7: "snd (redo ?r) = Some ''break''" and 8: "lines (fst (redo ?r)) = [''abc'']"
    unfolding r(3) using r(2) by simp_all
  from 1 2 3 4 5 6 7 8 show ?thesis by (intro conjI)
qed

section \<open>The tab key\<close>

lemma indent_line_action:
  assumes "0 < settings_indent ed" and "1 \<le> l" and "l \<le> int (length (lines ed))"
  shows "\<exists>ed1 r. indent ed l = Inr (ed1, r) \<and> settings_indent ed1 = settings_indent ed
           \<and> lines ed1 = (lines ed)[nat l - 1 := indented (settings_indent ed) (lines ed ! (nat l - 1))]"
proof -
  have w0: "settings_indent ed \<noteq> 0" using assms(1) by simp
  from indent_valid_line [OF w0 assms(2,3)] obtain ed1 r where
    i: "indent ed l = Inr (ed1, r)" and
    l: "lines ed1 = (lines ed)[nat l - 1 := indented (settings_indent ed) (lines ed ! (nat l - 1))]"
    unfolding indented_def by blast
  from i l indent_settings [OF i] show ?thesis by blast
qed

lemma dedent_line_action:
  assumes "0 < settings_indent ed" and "1 \<le> l" and "l \<le> int (length (lines ed))"
  shows "\<exists>ed1 r. dedent ed l = Inr (ed1, r) \<and> settings_indent ed1 = settings_indent ed
           \<and> lines ed1 = (lines ed)[nat l - 1 := dedented (settings_indent ed) (lines ed ! (nat l - 1))]"
proof (cases "spacecount (lines ed ! (nat l - 1)) = 0")
  case True
  have "get_line (lines ed) l = lines ed ! (nat l - 1) @ [newline]"
    using assms(2,3) by (simp add: get_line_valid)
  then have "dedent ed l = Inr (ed, 0)"
    unfolding dedent_unfold using True by (simp add: spacecount_append_newline)
  moreover have "(lines ed)[nat l - 1 := dedented (settings_indent ed) (lines ed ! (nat l - 1))]
                   = lines ed"
    using True by (simp add: dedented_def)
  ultimately show ?thesis by simp
next
  case False
  then have pos: "0 < spacecount (lines ed ! (nat l - 1))"
    using spacecount_nonneg [of "lines ed ! (nat l - 1)"] by linarith
  from dedent_valid_line [OF assms pos] obtain ed1 r where
    i: "dedent ed l = Inr (ed1, r)" and
    l: "lines ed1 = (lines ed)[nat l - 1 := dedented (settings_indent ed) (lines ed ! (nat l - 1))]"
    unfolding dedented_def using False by auto
  from i l dedent_settings [OF i] show ?thesis by blast
qed

lemma for_linenos_lines:
  assumes act: "\<And>ed l. settings_indent ed = w \<Longrightarrow> 1 \<le> l \<Longrightarrow> l \<le> int (length (lines ed)) \<Longrightarrow>
            \<exists>ed1 r. action ed l = Inr (ed1, r) \<and> settings_indent ed1 = w
              \<and> lines ed1 = (lines ed)[nat l - 1 := f (lines ed ! (nat l - 1))]"
  shows "settings_indent ed = w \<Longrightarrow> distinct ls \<Longrightarrow>
         \<forall>l \<in> set ls. 1 \<le> l \<and> l \<le> int (length (lines ed)) \<Longrightarrow>
         \<exists>ed'. for_linenos action ls ed = Inr ed' \<and> settings_indent ed' = w
           \<and> length (lines ed') = length (lines ed)
           \<and> (\<forall>i < length (lines ed).
                 lines ed' ! i = (if int i + 1 \<in> set ls then f (lines ed ! i) else lines ed ! i))"
proof (induction ls arbitrary: ed)
  case Nil
  then show ?case by simp
next
  case (Cons l ls)
  have l: "1 \<le> l" "l \<le> int (length (lines ed))" using Cons.prems(3) by simp_all
  from act [OF Cons.prems(1) l] obtain ed1 r where
    a: "action ed l = Inr (ed1, r)" and w1: "settings_indent ed1 = w" and
    l1: "lines ed1 = (lines ed)[nat l - 1 := f (lines ed ! (nat l - 1))]"
    by blast
  have len1: "length (lines ed1) = length (lines ed)" unfolding l1 by simp
  have d: "distinct ls" and nl: "l \<notin> set ls" using Cons.prems(2) by simp_all
  have v: "\<forall>l \<in> set ls. 1 \<le> l \<and> l \<le> int (length (lines ed1))"
    using Cons.prems(3) unfolding len1 by simp
  from Cons.IH [OF w1 d v] obtain ed' where
    r: "for_linenos action ls ed1 = Inr ed'" and w': "settings_indent ed' = w" and
    len': "length (lines ed') = length (lines ed1)" and
    nth': "\<forall>i < length (lines ed1).
             lines ed' ! i = (if int i + 1 \<in> set ls then f (lines ed1 ! i) else lines ed1 ! i)"
    by blast
  have f: "for_linenos action (l # ls) ed = Inr ed'" using a r by simp
  have nth: "lines ed' ! i = (if int i + 1 \<in> set (l # ls) then f (lines ed ! i) else lines ed ! i)"
    if i: "i < length (lines ed)" for i
  proof (cases "int i + 1 = l")
    case True
    then have e: "nat l - 1 = i" by simp
    have "int i + 1 \<notin> set ls" using nl True by simp
    then have "lines ed' ! i = lines ed1 ! i" using nth' i len1 by simp
    also have "\<dots> = f (lines ed ! i)" unfolding l1 e using i by simp
    finally show ?thesis using True by simp
  next
    case False
    then have ne: "nat l - 1 \<noteq> i" using l(1) by linarith
    have same: "lines ed1 ! i = lines ed ! i" unfolding l1 using ne by simp
    have "lines ed' ! i = (if int i + 1 \<in> set ls then f (lines ed1 ! i) else lines ed1 ! i)"
      using nth' i len1 by simp
    then show ?thesis unfolding same using False by simp
  qed
  show ?case
    using f w' len' len1 nth by (intro exI [of _ ed']) simp
qed

lemma action_returns:
  assumes "settings_indent ed \<noteq> 0"
  shows "\<exists>ed1 r. (if shifted then dedent else indent) ed l = Inr (ed1, r)
           \<and> settings_indent ed1 = settings_indent ed"
proof (cases shifted)
  case True
  have "\<exists>ed1 r. dedent ed l = Inr (ed1, r)"
    using assms unfolding dedent_unfold by simp
  then show ?thesis using True dedent_settings by auto
next
  case False
  have "\<exists>ed1 r. indent ed l = Inr (ed1, r)"
    using assms unfolding indent_unfold by simp
  then show ?thesis using False indent_settings by auto
qed

lemma for_linenos_returns:
  "settings_indent ed \<noteq> 0 \<Longrightarrow>
   \<exists>ed'. for_linenos (if shifted then dedent else indent) ls ed = Inr ed'"
proof (induction ls arbitrary: ed)
  case Nil
  then show ?case by simp
next
  case (Cons l ls)
  from action_returns [OF Cons.prems, of shifted l] obtain ed1 r where
    a: "(if shifted then dedent else indent) ed l = Inr (ed1, r)"
    and w: "settings_indent ed1 = settings_indent ed"
    by blast
  have "settings_indent ed1 \<noteq> 0" using w Cons.prems by simp
  from Cons.IH [OF this] obtain ed' where
    "for_linenos (if shifted then dedent else indent) ls ed1 = Inr ed'" by blast
  then show ?case using a by simp
qed

lemma on_tab_returns_break:
  assumes "settings_indent ed \<noteq> 0"
  shows "\<exists>ed'. on_tab ed shifted = Inr (ed', ''break'')"
proof -
  let ?action = "if shifted then dedent else indent"
  let ?inner = "case sel_ranges ed of
              [(sel_start, sel_end)] \<Rightarrow>
                (let first_lineno = int (fst sel_start);
                     last_lineno = int (fst sel_end)
                 in for_linenos ?action [first_lineno .. last_lineno] ed)
            | _ \<Rightarrow>
                (let lineno = int (fst (index_insert ed));
                     before_cursor = tk_get (lines ed) (make_index (lines ed) lineno 0)
                                       (index_insert ed)
                 in if isspace before_cursor \<or> before_cursor = []
                    then map_sum id fst (?action ed lineno)
                    else Inr (ed\<lparr>stdout := stdout ed @
                           [''complete '' @ (if shifted then ''previous'' else ''next'')]\<rparr>))"
  have "\<exists>ed'. ?inner = Inr ed'"
  proof (cases "\<exists>r. sel_ranges ed = [r]")
    case True
    then obtain s e where "sel_ranges ed = [(s, e)]" by (cases "sel_ranges ed") auto
    then show ?thesis
      using for_linenos_returns [OF assms, of shifted "[int (fst s) .. int (fst e)]"]
      by (simp add: Let_def)
  next
    case False
    from action_returns [OF assms, of shifted "int (fst (index_insert ed))"] obtain ed1 r where
      a: "?action ed (int (fst (index_insert ed))) = Inr (ed1, r)" by blast
    have "?inner = (let lineno = int (fst (index_insert ed));
                     before_cursor = tk_get (lines ed) (make_index (lines ed) lineno 0)
                                       (index_insert ed)
                 in if isspace before_cursor \<or> before_cursor = []
                    then map_sum id fst (?action ed lineno)
                    else Inr (ed\<lparr>stdout := stdout ed @
                           [''complete '' @ (if shifted then ''previous'' else ''next'')]\<rparr>))"
      using False by (auto split: list.splits)
    then show ?thesis using a by (simp add: Let_def)
  qed
  then obtain ed' where "?inner = Inr ed'" by blast
  then have "on_tab ed shifted = Inr (ed', ''break'')"
    unfolding on_tab_def Let_def by simp
  then show ?thesis by blast
qed

text \<open>
  C9. With an indent width \<open>w > 0\<close>, the tab handler returns \<open>'break'\<close> in every case.
  When the selection is one range from line \<open>a\<close> to line \<open>b\<close> of the buffer, the action
  (\<open>dedent\<close> when shifted, \<open>indent\<close> otherwise) runs on the line numbers \<open>a, \<dots>, b\<close>, in
  ascending order and once each, one call after the other; afterwards each of these
  lines is what one application of the action makes of it, and every other line is
  as before.
\<close>

theorem on_tab_selection:
  assumes "w = settings_indent ed" and "0 < w"
    and "action = (if shifted then dedent else indent)"
    and "f = (if shifted then dedented w else indented w)"
  shows "(\<exists>ed'. on_tab ed shifted = Inr (ed', ''break''))
       \<and> (\<forall>a ca b cb.
            sel_ranges ed = [((a, ca), (b, cb))] \<and> 1 \<le> a \<and> a \<le> b \<and> b \<le> length (lines ed) \<longrightarrow>
            (\<exists>ed'. on_tab ed shifted = Inr (ed', ''break'')
               \<and> for_linenos action [int a .. int b] ed = Inr ed'
               \<and> sorted [int a .. int b] \<and> distinct [int a .. int b]
               \<and> set [int a .. int b] = {int a .. int b}
               \<and> length (lines ed') = length (lines ed)
               \<and> (\<forall>i < length (lines ed).
                     lines ed' ! i
                       = (if a \<le> Suc i \<and> Suc i \<le> b then f (lines ed ! i) else lines ed ! i))))"
proof (intro conjI allI impI)
  have "settings_indent ed \<noteq> 0" using assms(1,2) by simp
  then show "\<exists>ed'. on_tab ed shifted = Inr (ed', ''break'')"
    by (rule on_tab_returns_break)
next
  fix a ca b cb
  assume sel: "sel_ranges ed = [((a, ca), (b, cb))] \<and> 1 \<le> a \<and> a \<le> b \<and> b \<le> length (lines ed)"
  have act: "\<exists>ed1 r. action ed0 l = Inr (ed1, r) \<and> settings_indent ed1 = w
              \<and> lines ed1 = (lines ed0)[nat l - 1 := f (lines ed0 ! (nat l - 1))]"
    if "settings_indent ed0 = w" "1 \<le> l" "l \<le> int (length (lines ed0))"
    for ed0 :: "'a editor" and l
  proof (cases shifted)
    case True
    have "0 < settings_indent ed0" using that(1) assms(2) by simp
    from dedent_line_action [OF this that(2,3)] show ?thesis
      unfolding assms(3,4) using True that(1) by simp
  next
    case False
    have "0 < settings_indent ed0" using that(1) assms(2) by simp
    from indent_line_action [OF this that(2,3)] show ?thesis
      unfolding assms(3,4) using False that(1) by simp
  qed
  have v: "\<forall>l \<in> set [int a .. int b]. 1 \<le> l \<and> l \<le> int (length (lines ed))"
    using sel by auto
  from for_linenos_lines [of w action f ed "[int a .. int b]", OF act assms(1) [symmetric] distinct_upto v]
  obtain ed' where
    r: "for_linenos action [int a .. int b] ed = Inr ed'" and
    len: "length (lines ed') = length (lines ed)" and
    nth: "\<forall>i < length (lines ed).
            lines ed' ! i = (if int i + 1 \<in> set [int a .. int b] then f (lines ed ! i) else lines ed ! i)"
    by blast
  have m: "int i + 1 \<in> set [int a .. int b] \<longleftrightarrow> a \<le> Suc i \<and> Suc i \<le> b" for i
    by auto
  have t: "on_tab ed shifted = Inr (ed', ''break'')"
    using sel r unfolding on_tab_def assms(3) by (simp add: Let_def)
  have nth': "\<forall>i < length (lines ed).
                lines ed' ! i = (if a \<le> Suc i \<and> Suc i \<le> b then f (lines ed ! i) else lines ed ! i)"
    using nth unfolding m .
  show "\<exists>ed'. on_tab ed shifted = Inr (ed', ''break'')
               \<and> for_linenos action [int a .. int b] ed = Inr ed'
               \<and> sorted [int a .. int b] \<and> distinct [int a .. int b]
               \<and> set [int a .. int b] = {int a .. int b}
               \<and> length (lines ed') = length (lines ed)
               \<and> (\<forall>i < length (lines ed).
                     lines ed' ! i
                       = (if a \<le> Suc i \<and> Suc i \<le> b then f (lines ed ! i) else lines ed ! i))"
    by (rule exI [of _ ed']) (intro conjI t r sorted_upto distinct_upto set_upto len nth')
qed

lemma list4_eqI:
  assumes "length xs = 4" and "xs ! 0 = a" and "xs ! 1 = b" and "xs ! 2 = c" and "xs ! 3 = d"
  shows "xs = [a, b, c, d]"
proof (rule nth_equalityI)
  show "length xs = length [a, b, c, d]" using assms(1) by simp
  fix i assume "i < length xs"
  then have "i = 0 \<or> i = 1 \<or> i = 2 \<or> i = 3" using assms(1) by linarith
  then show "xs ! i = [a, b, c, d] ! i" using assms(2-5) by auto
qed

theorem on_tab_selection_witness:
  "(\<exists>ed'. on_tab ((new_editor [''a'', '' b'', ''c'', ''d''] (2, 0) 4)\<lparr>sel_ranges := [((2, 0), (3, 1))]\<rparr>) False
             = Inr (ed', ''break'')
      \<and> lines ed' = [''a'', ''    b'', ''    c'', ''d''])
   \<and> (\<exists>ed'. on_tab ((new_editor [''     a'', ''    b'', ''c'', ''  d''] (1, 0) 4)\<lparr>sel_ranges := [((1, 0), (3, 0))]\<rparr>) True
             = Inr (ed', ''break'')
      \<and> lines ed' = [''    a'', ''b'', ''c'', ''  d''])
   \<and> (\<exists>ed'. on_tab (new_editor [''ab''] (1, 2) 4) False = Inr (ed', ''break''))"
proof -
  let ?e1 = "(new_editor [''a'', '' b'', ''c'', ''d''] (2, 0) 4)\<lparr>sel_ranges := [((2, 0), (3, 1))]\<rparr>"
  let ?e2 = "(new_editor [''     a'', ''    b'', ''c'', ''  d''] (1, 0) 4)\<lparr>sel_ranges := [((1, 0), (3, 0))]\<rparr>"
  let ?e3 = "new_editor [''ab''] (1, 2) 4"
  have sc: "spacecount '' b'' = 1" "spacecount ''c'' = 0" "spacecount ''     a'' = 5"
    "spacecount ''    b'' = 4"
    by (simp_all add: spacecount_takeWhile indent_char_def char_isspace_def whitespace_chars_def
        newline_def)
  have w: "4 = settings_indent ?e1" "4 = settings_indent ?e2" "4 = settings_indent ?e3"
    by (simp_all add: new_editor_def)
  have l: "lines ?e1 = [''a'', '' b'', ''c'', ''d'']"
    "lines ?e2 = [''     a'', ''    b'', ''c'', ''  d'']"
    by (simp_all add: new_editor_def)
  have s: "sel_ranges ?e1 = [((2, 0), (3, 1))] \<and> 1 \<le> (2::nat) \<and> (2::nat) \<le> 3 \<and> 3 \<le> length (lines ?e1)"
    "sel_ranges ?e2 = [((1, 0), (3, 0))] \<and> 1 \<le> (1::nat) \<and> (1::nat) \<le> 3 \<and> 3 \<le> length (lines ?e2)"
    by (simp_all add: new_editor_def)
  from on_tab_selection [OF w(1) _ refl refl, of False] s(1) obtain ed1 where
    t1: "on_tab ?e1 False = Inr (ed1, ''break'')" and
    len1: "length (lines ed1) = length (lines ?e1)" and
    nth1: "\<forall>i < length (lines ?e1). lines ed1 ! i
             = (if 2 \<le> Suc i \<and> Suc i \<le> 3 then indented 4 (lines ?e1 ! i) else lines ?e1 ! i)"
    by (simp only: if_False zero_less_numeral) blast
  have "lines ed1 = [''a'', ''    b'', ''    c'', ''d'']"
    using len1 nth1 unfolding l
    by (intro list4_eqI) (simp_all add: indented_def sc space_def eval_nat_numeral)
  with t1 have 1: "\<exists>ed'. on_tab ?e1 False = Inr (ed', ''break'')
      \<and> lines ed' = [''a'', ''    b'', ''    c'', ''d'']" by blast
  from on_tab_selection [OF w(2) _ refl refl, of True] s(2) obtain ed2 where
    t2: "on_tab ?e2 True = Inr (ed2, ''break'')" and
    len2: "length (lines ed2) = length (lines ?e2)" and
    nth2: "\<forall>i < length (lines ?e2). lines ed2 ! i
             = (if 1 \<le> Suc i \<and> Suc i \<le> 3 then dedented 4 (lines ?e2 ! i) else lines ?e2 ! i)"
    by (simp only: if_True zero_less_numeral) blast
  have "lines ed2 = [''    a'', ''b'', ''c'', ''  d'']"
    using len2 nth2 unfolding l
    by (intro list4_eqI) (simp_all add: dedented_def sc eval_nat_numeral)
  with t2 have 2: "\<exists>ed'. on_tab ?e2 True = Inr (ed', ''break'')
      \<and> lines ed' = [''    a'', ''b'', ''c'', ''  d'']" by blast
  from on_tab_selection [OF w(3) _ refl refl, of False]
  have 3: "\<exists>ed'. on_tab ?e3 False = Inr (ed', ''break'')" by simp
  from 1 2 3 show ?thesis by (intro conjI)
qed

end
